theory Spec2Isabelle
  imports Complex_Main "HOL-Library.Sublist"
begin

section \<open>Strings\<close>

text \<open>
  Text is a list of characters. Isabelle's \<^typ>\<open>char\<close> has 256 values, so the model covers
  text whose code points lie below 256; both Python's and JavaScript's notion of white
  space are written out for that range. \<open>startswith\<close> and \<open>endswith\<close> are
  \<^const>\<open>prefix\<close> and \<^const>\<open>suffix\<close>. A Python exception is represented by its message
  \<open>str(e)\<close>; numbers that come from a \<open>z.number()\<close> field are rationals, since the schema
  does not ask for integers.
\<close>

type_synonym exn = string

definition py_isspace :: "char \<Rightarrow> bool" where
  "py_isspace c = (c \<in> set [CHR 0x09, CHR 0x0A, CHR 0x0B, CHR 0x0C, CHR 0x0D,
                             CHR 0x1C, CHR 0x1D, CHR 0x1E, CHR 0x1F, CHR 0x20,
                             CHR 0x85, CHR 0xA0])"

definition js_isspace :: "char \<Rightarrow> bool" where
  "js_isspace c = (c \<in> set [CHR 0x09, CHR 0x0A, CHR 0x0B, CHR 0x0C, CHR 0x0D,
                             CHR 0x20, CHR 0xA0])"

text \<open>\<open>s.strip()\<close> in Python and \<open>s.trim()\<close> in JavaScript, by their white space.\<close>

definition strip_with :: "(char \<Rightarrow> bool) \<Rightarrow> string \<Rightarrow> string" where
  "strip_with sp s = rev (dropWhile sp (rev (dropWhile sp s)))"

definition py_strip :: "string \<Rightarrow> string" where
  "py_strip = strip_with py_isspace"

definition js_trim :: "string \<Rightarrow> string" where
  "js_trim = strip_with js_isspace"

text \<open>
  The white-space-delimited tokens of a text: its maximal runs of characters that are not
  white space. \<open>cur\<close> is the token being read. This is Python's \<open>s.split()\<close>.
\<close>

fun tokens_with :: "(char \<Rightarrow> bool) \<Rightarrow> string \<Rightarrow> string \<Rightarrow> string list" where
  "tokens_with sp cur [] = (if cur = [] then [] else [cur])"
| "tokens_with sp cur (c # cs) =
     (if sp c then (if cur = [] then tokens_with sp [] cs else cur # tokens_with sp [] cs)
      else tokens_with sp (cur @ [c]) cs)"

definition py_split :: "string \<Rightarrow> string list" where
  "py_split s = tokens_with py_isspace [] s"

text \<open>\<open>s.split('\n')\<close>: the pieces between line feeds; the empty text gives one empty piece.\<close>

fun split_on :: "char \<Rightarrow> string \<Rightarrow> string \<Rightarrow> string list" where
  "split_on d cur [] = [cur]"
| "split_on d cur (c # cs) =
     (if c = d then cur # split_on d [] cs else split_on d (cur @ [c]) cs)"

definition split_nl :: "string \<Rightarrow> string list" where
  "split_nl s = split_on (CHR 0x0A) [] s"

text \<open>\<open>sep.join(xs)\<close>.\<close>

fun py_join :: "string \<Rightarrow> string list \<Rightarrow> string" where
  "py_join sep [] = []"
| "py_join sep [x] = x"
| "py_join sep (x # y # ys) = x @ sep @ py_join sep (y # ys)"

text \<open>
  \<open>s.split(/\s+/)\<close> in JavaScript: every maximal run of white space is one separator, and a
  separator at either end leaves an empty piece there.
\<close>

function js_split_ws :: "string \<Rightarrow> string \<Rightarrow> string list" where
  "js_split_ws cur [] = [cur]"
| "js_split_ws cur (c # cs) =
     (if js_isspace c then cur # js_split_ws [] (dropWhile js_isspace cs)
      else js_split_ws (cur @ [c]) cs)"
  by pat_completeness auto
termination
  by (relation "measure (\<lambda>(cur, s). length s)")
     (auto simp: length_dropWhile_le less_Suc_eq_le)

text \<open>The decimal digits of a natural number, as an f-string prints it.\<close>

function str_nat :: "nat \<Rightarrow> string" where
  "str_nat n =
     (if n < 10 then [char_of (48 + n)] else str_nat (n div 10) @ [char_of (48 + n mod 10)])"
  by pat_completeness auto
termination
  by (relation "measure id") auto

section \<open>The parsed document\<close>

text \<open>
  A BeautifulSoup tree: tags with a name, attributes and contents, and text nodes. A
  document is the list of its top-level nodes. \<open>find_all\<close> walks the tags in document
  order; \<open>decompose\<close> on every match leaves the tree without the matching tags and what
  they contain.
\<close>

datatype node =
    Tag (name: string) (attrs: "(string \<times> string) list") (contents: "node list")
  | NavigableString string

type_synonym soup = "node list"

fun tags_of :: "node \<Rightarrow> node list" where
  "tags_of (Tag n a cs) = Tag n a cs # concat (map tags_of cs)"
| "tags_of (NavigableString s) = []"

definition find_all :: "(node \<Rightarrow> bool) \<Rightarrow> soup \<Rightarrow> node list" where
  "find_all P sp = filter P (concat (map tags_of sp))"

definition find_first :: "(node \<Rightarrow> bool) \<Rightarrow> soup \<Rightarrow> node option" where
  "find_first P sp = (case find_all P sp of [] \<Rightarrow> None | x # _ \<Rightarrow> Some x)"

fun get_text :: "node \<Rightarrow> string" where
  "get_text (Tag n a cs) = concat (map get_text cs)"
| "get_text (NavigableString s) = s"

fun prune :: "(node \<Rightarrow> bool) \<Rightarrow> node \<Rightarrow> node" where
  "prune P (Tag n a cs) = Tag n a (map (prune P) (filter (\<lambda>c. \<not> P c) cs))"
| "prune P (NavigableString s) = NavigableString s"

definition decompose_all :: "(node \<Rightarrow> bool) \<Rightarrow> soup \<Rightarrow> soup" where
  "decompose_all P sp = map (prune P) (filter (\<lambda>c. \<not> P c) sp)"

text \<open>The matchers the crawler uses: by tag name, by class token, by id, by having an attribute.\<close>

fun named :: "string list \<Rightarrow> node \<Rightarrow> bool" where
  "named ns (Tag n a cs) = (n \<in> set ns)"
| "named ns (NavigableString s) = False"

fun has_class :: "string list \<Rightarrow> node \<Rightarrow> bool" where
  "has_class vs (Tag n a cs) =
     (case map_of a ''class'' of None \<Rightarrow> False
      | Some v \<Rightarrow> list_ex (\<lambda>t. t \<in> set vs) (py_split v))"
| "has_class vs (NavigableString s) = False"

fun has_id :: "string list \<Rightarrow> node \<Rightarrow> bool" where
  "has_id vs (Tag n a cs) =
     (case map_of a ''id'' of None \<Rightarrow> False | Some v \<Rightarrow> v \<in> set vs)"
| "has_id vs (NavigableString s) = False"

fun a_with_href :: "node \<Rightarrow> bool" where
  "a_with_href (Tag n a cs) = (n = ''a'' \<and> map_of a ''href'' \<noteq> None)"
| "a_with_href (NavigableString s) = False"

fun href_of :: "node \<Rightarrow> string" where
  "href_of (Tag n a cs) = (case map_of a ''href'' of Some v \<Rightarrow> v | None \<Rightarrow> [])"
| "href_of (NavigableString s) = []"

section \<open>The request and its environment\<close>

text \<open>
  The validated body of \<open>POST /api/crawl\<close> (\<open>crawlRequestSchema\<close>), with the defaults
  already filled in. An absent \<open>waitForSelector\<close> is \<open>None\<close>.
\<close>

record crawl_request =
  url :: string
  removeImages :: bool
  removeLinks :: bool
  cleanMode :: bool
  extractMetadata :: bool
  crawlDepth :: rat
  maxPages :: rat
  includeSubdomains :: bool
  followExternalLinks :: bool
  waitForSelector :: "string option"
  excludePatterns :: "string list"
  includePatterns :: "string list"
  customHeaders :: "(string \<times> string) list"
  timeout :: rat
  extractImages :: bool
  extractTables :: bool
  wordCountThreshold :: rat
  onlyMainContent :: bool

text \<open>The dictionary \<open>config\<close> that \<open>crawl_url\<close> builds and hands to \<open>fallback_crawl\<close>.\<close>

record config =
  crawl_depth :: rat
  max_pages :: rat
  include_subdomains :: bool
  follow_external_links :: bool
  cfg_timeout :: rat
  word_count_threshold :: rat

text \<open>What \<open>crawler.arun\<close> is called with, and what it answers.\<close>

record crawl_params =
  cp_url :: string
  cp_word_count_threshold :: rat
  cp_bypass_cache :: bool
  cp_remove_images :: bool
  cp_remove_links :: bool
  cp_wait_for :: "string option"

record arun_result =
  success :: bool
  ar_markdown :: "string option"
  ar_metadata :: "(string \<times> string option) list option"

text \<open>
  What the script prints as its result: the markdown and the title (\<open>None\<close> is Python's
  \<open>None\<close>, printed as \<open>null\<close>).
\<close>

record py_output =
  markdown :: string
  title :: "string option"

text \<open>
  How a run of \<open>python3\<close> ends, as the handlers of \<open>crawlWithPython\<close> tell the cases apart:
  \<^item> \<open>Exit0\<close>: exit code 0, the last line of the standard output is a JSON object without
    an \<open>error\<close> key;
  \<^item> \<open>Exit0_error\<close>: exit code 0, that object has an \<open>error\<close> key, with this text;
  \<^item> \<open>Exit0_unparsed\<close>: exit code 0, that line is not a JSON object; the message of the
    exception;
  \<^item> \<open>Exit1\<close>: another exit code, the last line of the standard error is a JSON object;
    the text of its \<open>error\<close> key;
  \<^item> \<open>Exit_other\<close>: another exit code, or none when the process was killed, and the
    standard error, given here, does not end in a JSON line (a traceback, a syntax error);
  \<^item> \<open>Spawn_error\<close>: the \<open>error\<close> event, with its message (\<open>python3\<close> could not be started).
\<close>

datatype py_exit =
    Exit0 py_output
  | Exit0_error exn py_output
  | Exit0_unparsed string
  | Exit1 exn
  | Exit_other string
  | Spawn_error string

text \<open>
  The libraries, the network and the process the code relies on, as parameters of the
  model. A library call either raises (\<open>Inl\<close>, with the message) or returns:
  \<^item> \<open>requests_get n u headers timeout\<close> is \<open>requests.get\<close> followed by \<open>raise_for_status\<close>:
    the body of the response, or the error (a connection error, a status such as 404).
    \<open>n\<close> is the number of requests the crawl has made before this one, so the answer to
    a URL may change from one request to the next;
  \<^item> \<open>html_parser\<close> is \<open>BeautifulSoup(content, 'html.parser')\<close>;
  \<^item> \<open>urljoin base href\<close> and \<open>urlparse_netloc u\<close> (\<open>urlparse(u).netloc\<close>) are \<open>urllib.parse\<close>;
  \<^item> \<open>soup_select\<close> is \<open>page_soup.select\<close>;
  \<^item> \<open>html2text_handle ignore_links ignore_images\<close> is \<open>HTML2Text.handle\<close> on the
    serialised tree;
  \<^item> \<open>crawl4ai_arun\<close> covers importing Crawl4AI, opening the crawler and \<open>arun\<close>;
  \<^item> \<open>interrupted\<close> is \<open>Some\<close> when \<open>python3\<close> does not run the script to its end: it cannot
    be started, it crashes, or \<open>spawn\<close> kills it after its 60 seconds; the value is what
    the handlers then see;
  \<^item> \<open>altered_script\<close> is how the run ends when the URL or the selector, pasted between
    double quotes into the text of the script, does not read back as itself.
  The last two depend on the request through the text of the script only.
\<close>

record env =
  requests_get :: "nat \<Rightarrow> string \<Rightarrow> (string \<rightharpoonup> string) \<Rightarrow> rat \<Rightarrow> exn + string"
  html_parser :: "string \<Rightarrow> exn + soup"
  urljoin :: "string \<Rightarrow> string \<Rightarrow> exn + string"
  urlparse_netloc :: "string \<Rightarrow> exn + string"
  soup_select :: "soup \<Rightarrow> string \<Rightarrow> exn + node list"
  html2text_handle :: "bool \<Rightarrow> bool \<Rightarrow> soup \<Rightarrow> exn + string"
  crawl4ai_arun :: "crawl_params \<Rightarrow> exn + arun_result"
  interrupted :: "crawl_request \<Rightarrow> py_exit option"
  altered_script :: "crawl_request \<Rightarrow> py_exit"

text \<open>JavaScript's \<open>x || d\<close> on a number and on an optional string.\<close>

definition num_or :: "rat \<Rightarrow> rat \<Rightarrow> rat" where
  "num_or x d = (if x = 0 then d else x)"

definition str_or :: "string option \<Rightarrow> string \<Rightarrow> string" where
  "str_or x d = (case x of None \<Rightarrow> d | Some s \<Rightarrow> if s = [] then d else s)"

definition user_agent :: string where
  "user_agent = ''Mozilla/5.0 (Windows NT 10.0; Win64; x64) AppleWebKit/537.36 (KHTML, like Gecko) Chrome/91.0.4472.124 Safari/537.36''"

definition headers :: "crawl_request \<Rightarrow> (string \<rightharpoonup> string)" where
  "headers opts = [''User-Agent'' \<mapsto> user_agent] ++ map_of (customHeaders opts)"

definition fetch :: "env \<Rightarrow> crawl_request \<Rightarrow> nat \<Rightarrow> string \<Rightarrow> exn + string" where
  "fetch E opts n current_url =
     requests_get E n current_url (headers opts) (num_or (timeout opts) 30)"

section \<open>Page content: locator, sanitizer, converter, filter\<close>

text \<open>
  The first of \<open>main\<close>, \<open>article\<close>, a content class, a content id. A tag is always true
  in Python, so \<open>or\<close> takes the first one found.
\<close>

definition main_content :: "soup \<Rightarrow> node option" where
  "main_content page_soup =
     (case find_first (named [''main'']) page_soup of Some m \<Rightarrow> Some m | None \<Rightarrow>
      (case find_first (named [''article'']) page_soup of Some m \<Rightarrow> Some m | None \<Rightarrow>
       (case find_first (has_class [''content'', ''main-content'', ''article-content'',
                                    ''post-content'']) page_soup of Some m \<Rightarrow> Some m | None \<Rightarrow>
        find_first (has_id [''content'', ''main'', ''article'', ''post'']) page_soup)))"

text \<open>
  Re-parsing the serialised main element (\<open>BeautifulSoup(str(main_content), ...)\<close>) is taken
  to give that element back as the only top-level node.
\<close>

definition locate :: "crawl_request \<Rightarrow> soup \<Rightarrow> soup" where
  "locate opts page_soup =
     (if onlyMainContent opts
      then (case main_content page_soup of Some m \<Rightarrow> [m] | None \<Rightarrow> page_soup)
      else page_soup)"

definition remove_unwanted :: "crawl_request \<Rightarrow> soup \<Rightarrow> soup" where
  "remove_unwanted opts page_soup =
     (let page_soup = decompose_all (named [''script'', ''style'', ''noscript'']) page_soup
      in if onlyMainContent opts
         then decompose_all (has_class [''nav'', ''navigation'', ''sidebar'', ''footer'',
                                        ''header'', ''menu''])
                (decompose_all (named [''nav'', ''footer'', ''aside'', ''header'']) page_soup)
         else page_soup)"

definition handle_tables :: "crawl_request \<Rightarrow> soup \<Rightarrow> soup" where
  "handle_tables opts page_soup =
     (if \<not> extractTables opts then decompose_all (named [''table'']) page_soup
      else page_soup)"

definition handle_images :: "crawl_request \<Rightarrow> soup \<Rightarrow> soup" where
  "handle_images opts page_soup =
     (if \<not> extractImages opts \<and> removeImages opts
      then decompose_all (named [''img'']) page_soup
      else page_soup)"

definition sanitize :: "crawl_request \<Rightarrow> soup \<Rightarrow> soup" where
  "sanitize opts page_soup =
     handle_images opts (handle_tables opts (remove_unwanted opts page_soup))"

text \<open>The word-count filter: the loop over the lines, then the whole step.\<close>

fun filter_lines :: "rat \<Rightarrow> string list \<Rightarrow> string list \<Rightarrow> string list" where
  "filter_lines word_threshold filtered_lines [] = filtered_lines"
| "filter_lines word_threshold filtered_lines (line # lines) =
     (if word_threshold \<le> of_nat (length (py_split line)) \<or> prefix ''#'' line
         \<or> py_strip line = []
      then filter_lines word_threshold (filtered_lines @ [line]) lines
      else filter_lines word_threshold filtered_lines lines)"

definition content_filter :: "rat \<Rightarrow> string \<Rightarrow> string" where
  "content_filter threshold md =
     (let word_threshold = num_or threshold 1
      in if 1 < word_threshold
         then py_join [CHR 0x0A] (filter_lines word_threshold [] (split_nl md))
         else md)"

text \<open>
  From the second parse of the response to the filtered markdown of the page. The
  selector is only looked for when one was given; not finding it is a warning.
\<close>

definition page_markdown :: "env \<Rightarrow> crawl_request \<Rightarrow> string \<Rightarrow> exn + string" where
  "page_markdown E opts content =
     (case html_parser E content of Inl e \<Rightarrow> Inl e | Inr page_soup \<Rightarrow>
      (case (let wait_selector = str_or (waitForSelector opts) []
             in if wait_selector \<noteq> [] then soup_select E page_soup wait_selector
                else Inr []) of
         Inl e \<Rightarrow> Inl e
       | Inr found \<Rightarrow>
         (case html2text_handle E (removeLinks opts) (removeImages opts)
                 (sanitize opts (locate opts page_soup)) of
            Inl e \<Rightarrow> Inl e
          | Inr md \<Rightarrow> Inr (content_filter (wordCountThreshold opts) md))))"

section \<open>The traversal\<close>

text \<open>
  The variables of \<open>fallback_crawl\<close> that the loop changes. \<open>main_title\<close> is \<open>None\<close> while
  the Python variable is unbound. \<open>requested\<close> and \<open>enqueued\<close> record, in order, every
  URL handed to \<open>requests.get\<close> and every URL put on \<open>urls_to_visit\<close> (the seed
  included); the code keeps no such lists, they are here so that "fetched twice" and
  "enters the frontier twice" can be said.
\<close>

record crawl_state =
  visited_urls :: "string set"
  all_content :: "string list"
  urls_to_visit :: "string list"
  pages_crawled :: nat
  main_title :: "string option"
  requested :: "string list"
  enqueued :: "string list"

definition init_state :: "string \<Rightarrow> crawl_state" where
  "init_state seed =
     \<lparr>visited_urls = {}, all_content = [], urls_to_visit = [seed], pages_crawled = 0,
      main_title = None, requested = [], enqueued = [seed]\<rparr>"

text \<open>
  One \<open>href\<close> of the page: skipped (\<open>None\<close>), or made absolute and put through the domain
  rules; \<open>Some\<close> of the absolute URL when \<open>should_include\<close> is true.
\<close>

definition admit_link ::
  "env \<Rightarrow> config \<Rightarrow> string \<Rightarrow> string \<Rightarrow> string \<Rightarrow> exn + string option" where
  "admit_link E cfg base_domain current_url href0 =
     (if prefix ''#'' href0 \<or> prefix ''mailto:'' href0 \<or> prefix ''tel:'' href0 then Inr None
      else
        (case (if prefix ''/'' href0 \<or> prefix ''./'' href0 \<or> \<not> prefix ''http'' href0
               then urljoin E current_url href0 else Inr href0) of
           Inl e \<Rightarrow> Inl e
         | Inr href \<Rightarrow>
           (case urlparse_netloc E href of
              Inl e \<Rightarrow> Inl e
            | Inr link_domain \<Rightarrow>
                let should_include =
                      (if link_domain = base_domain then True
                       else if include_subdomains cfg
                               \<and> (suffix (''.'' @ base_domain) link_domain
                                    \<or> suffix (''.'' @ link_domain) base_domain) then True
                       else if follow_external_links cfg then True
                       else False)
                in Inr (if should_include then Some href else None))))"

text \<open>
  The loop over the links of a page. It stops at the first exception and keeps what it
  has appended so far.
\<close>

fun scan_links ::
  "env \<Rightarrow> config \<Rightarrow> string \<Rightarrow> string \<Rightarrow> string list \<Rightarrow> crawl_state
     \<Rightarrow> exn option \<times> crawl_state" where
  "scan_links E cfg base_domain current_url [] s = (None, s)"
| "scan_links E cfg base_domain current_url (href0 # rest) s =
     (case admit_link E cfg base_domain current_url href0 of
        Inl e \<Rightarrow> (Some e, s)
      | Inr None \<Rightarrow> scan_links E cfg base_domain current_url rest s
      | Inr (Some href) \<Rightarrow>
          if href \<notin> visited_urls s \<and> href \<notin> set (urls_to_visit s)
          then scan_links E cfg base_domain current_url rest
                 (s\<lparr>urls_to_visit := urls_to_visit s @ [href],
                    enqueued := enqueued s @ [href]\<rparr>)
          else scan_links E cfg base_domain current_url rest s)"

definition page_title :: "soup \<Rightarrow> string" where
  "page_title sp =
     (case find_first (named [''title'']) sp of
        Some title_elem \<Rightarrow> py_strip (get_text title_elem)
      | None \<Rightarrow> ''Untitled'')"

definition page_links :: "soup \<Rightarrow> string list" where
  "page_links sp = map href_of (find_all a_with_href sp)"

definition page_separator :: "nat \<Rightarrow> string \<Rightarrow> string" where
  "page_separator n current_url =
     [CHR 0x0A, CHR 0x0A] @ ''--- Page '' @ str_nat n @ '': '' @ current_url @ '' ---''
     @ [CHR 0x0A, CHR 0x0A]"

text \<open>
  The part of the loop body after a successful fetch: everything from the first parse to
  the append, with the exception that ended it, if any. The handler of the loop body only
  prints it, and the loop goes on with the state as it is then.
\<close>

definition process_page ::
  "env \<Rightarrow> crawl_request \<Rightarrow> config \<Rightarrow> string \<Rightarrow> string \<Rightarrow> string \<Rightarrow> crawl_state
     \<Rightarrow> exn option \<times> crawl_state" where
  "process_page E opts cfg base_domain current_url content s =
     (case html_parser E content of
        Inl e \<Rightarrow> (Some e, s)
      | Inr sp \<Rightarrow>
          let s1 = (if pages_crawled s = 1 then s\<lparr>main_title := Some (page_title sp)\<rparr> else s);
              (err, s2) =
                (if of_nat (pages_crawled s1) < max_pages cfg \<and> 1 < crawl_depth cfg
                 then scan_links E cfg base_domain current_url (page_links sp) s1
                 else (None, s1))
          in (case err of
                Some e \<Rightarrow> (Some e, s2)
              | None \<Rightarrow>
                  (case page_markdown E opts content of
                     Inl e \<Rightarrow> (Some e, s2)
                   | Inr md \<Rightarrow>
                       (None,
                        s2\<lparr>all_content :=
                             all_content s2
                             @ (if 1 < pages_crawled s2
                                then [page_separator (pages_crawled s2) current_url] else [])
                             @ [py_strip md]\<rparr>))))"

text \<open>
  The loop body for a URL that is not visited yet. A failed request leaves everything as
  it was; a successful one marks the URL and counts the page before anything else.
\<close>

definition visit_page ::
  "env \<Rightarrow> crawl_request \<Rightarrow> config \<Rightarrow> string \<Rightarrow> string \<Rightarrow> crawl_state \<Rightarrow> crawl_state" where
  "visit_page E opts cfg base_domain current_url s =
     (case fetch E opts (length (requested s)) current_url of
        Inl e \<Rightarrow> s\<lparr>requested := requested s @ [current_url]\<rparr>
      | Inr content \<Rightarrow>
          snd (process_page E opts cfg base_domain current_url content
                 (s\<lparr>requested := requested s @ [current_url],
                    visited_urls := insert current_url (visited_urls s),
                    pages_crawled := pages_crawled s + 1\<rparr>)))"

lemma scan_links_pages_crawled:
  "pages_crawled (snd (scan_links E cfg b u hs s)) = pages_crawled s"
  by (induction hs arbitrary: s) (auto split: sum.splits option.splits)

lemma process_page_pages_crawled:
  "pages_crawled (snd (process_page E opts cfg b u content s)) = pages_crawled s"
  by (auto simp: process_page_def Let_def scan_links_pages_crawled
           split: sum.splits option.splits prod.splits
           dest: arg_cong [where f = "\<lambda>p. pages_crawled (snd p)"])

lemma visit_page_progress:
  "pages_crawled (visit_page E opts cfg b u s) = pages_crawled s + 1
   \<or> (pages_crawled (visit_page E opts cfg b u s) = pages_crawled s
       \<and> urls_to_visit (visit_page E opts cfg b u s) = urls_to_visit s)"
  by (simp add: visit_page_def process_page_pages_crawled split: sum.splits)

lemma of_nat_less_ceiling: "of_nat (n::nat) < (m::rat) \<Longrightarrow> n < nat \<lceil>m\<rceil>"
  by linarith

text \<open>
  \<open>while urls_to_visit and pages_crawled < max_pages\<close>. Every round either counts a page
  or shortens the frontier, so the loop ends.
\<close>

function crawl_loop ::
  "env \<Rightarrow> crawl_request \<Rightarrow> config \<Rightarrow> string \<Rightarrow> crawl_state \<Rightarrow> crawl_state" where
  "crawl_loop E opts cfg base_domain s =
     (case urls_to_visit s of
        [] \<Rightarrow> s
      | current_url # rest \<Rightarrow>
          if \<not> of_nat (pages_crawled s) < max_pages cfg then s
          else if current_url \<in> visited_urls s
          then crawl_loop E opts cfg base_domain (s\<lparr>urls_to_visit := rest\<rparr>)
          else crawl_loop E opts cfg base_domain
                 (visit_page E opts cfg base_domain current_url (s\<lparr>urls_to_visit := rest\<rparr>)))"
  by pat_completeness auto
termination
proof (relation "measures [\<lambda>(E, opts, cfg, b, s). nat \<lceil>max_pages cfg\<rceil> - pages_crawled s,
                           \<lambda>(E, opts, cfg, b, s). length (urls_to_visit s)]", goal_cases)
  case 1
  show ?case by simp
next
  case (2 E opts cfg b s u rest)
  then show ?case by simp
next
  case (3 E opts cfg b s u rest)
  let ?s = "s\<lparr>urls_to_visit := rest\<rparr>"
  from 3 have lt: "pages_crawled s < nat \<lceil>max_pages cfg\<rceil>"
    by (simp add: of_nat_less_ceiling)
  have len: "length rest < length (urls_to_visit s)"
    using 3 by simp
  from visit_page_progress [of E opts cfg b u ?s]
  show ?case
  proof
    assume "pages_crawled (visit_page E opts cfg b u ?s) = pages_crawled ?s + 1"
    with lt show ?thesis by (simp add: diff_less_mono2)
  next
    assume "pages_crawled (visit_page E opts cfg b u ?s) = pages_crawled ?s
       \<and> urls_to_visit (visit_page E opts cfg b u ?s) = urls_to_visit ?s"
    with len show ?thesis by simp
  qed
qed

declare crawl_loop.simps [simp del]

text \<open>
  \<open>fallback_crawl\<close>. Outside the loop only \<open>urlparse(url)\<close> can raise; the outer handler
  re-raises with its prefix.
\<close>

definition fallback_crawl ::
  "env \<Rightarrow> crawl_request \<Rightarrow> string \<Rightarrow> config \<Rightarrow> exn + py_output" where
  "fallback_crawl E opts seed cfg =
     (case urlparse_netloc E seed of
        Inl e \<Rightarrow> Inl (''Multi-page crawl failed: '' @ e)
      | Inr base_domain \<Rightarrow>
          let s = crawl_loop E opts cfg base_domain (init_state seed);
              combined_markdown =
                py_join [CHR 0x0A, CHR 0x0A] (filter (\<lambda>c. c \<noteq> []) (all_content s))
          in Inr \<lparr>markdown = combined_markdown,
                  title = Some (case main_title s of
                                  Some t \<Rightarrow> t
                                | None \<Rightarrow> ''Multi-page Crawl Results'')\<rparr>)"

section \<open>The strategy chain and the route\<close>

text \<open>
  The first attempt of \<open>crawl_url\<close>: Crawl4AI. It ends with the output to print, or with
  the exception that sends control to the fallback; a result that reports no success
  raises \<open>Crawl4AI failed\<close>. \<open>None\<close> for the title is Python's \<open>None\<close>, printed as \<open>null\<close>.
\<close>

definition make_crawl_params :: "crawl_request \<Rightarrow> crawl_params" where
  "make_crawl_params opts =
     (let wait_selector = str_or (waitForSelector opts) []
      in \<lparr>cp_url = url opts,
          cp_word_count_threshold = num_or (wordCountThreshold opts) 1,
          cp_bypass_cache = True,
          cp_remove_images = removeImages opts,
          cp_remove_links = removeLinks opts,
          cp_wait_for = (if wait_selector \<noteq> [] then Some wait_selector else None)\<rparr>)"

definition crawl4ai_attempt :: "env \<Rightarrow> crawl_request \<Rightarrow> exn + py_output" where
  "crawl4ai_attempt E opts =
     (case crawl4ai_arun E (make_crawl_params opts) of
        Inl e \<Rightarrow> Inl e
      | Inr result \<Rightarrow>
          if success result
          then Inr \<lparr>markdown = (case ar_markdown result of Some m \<Rightarrow> m | None \<Rightarrow> []),
                    title = (case ar_metadata result of
                               None \<Rightarrow> Some ''Untitled''
                             | Some [] \<Rightarrow> Some ''Untitled''
                             | Some (kv # kvs) \<Rightarrow>
                                 (case map_of (kv # kvs) ''title'' of
                                    None \<Rightarrow> Some ''Untitled''
                                  | Some v \<Rightarrow> v))\<rparr>
          else Inl ''Crawl4AI failed'')"

definition make_config :: "crawl_request \<Rightarrow> config" where
  "make_config opts =
     \<lparr>crawl_depth = num_or (crawlDepth opts) 1,
      max_pages = num_or (maxPages opts) 1,
      include_subdomains = includeSubdomains opts,
      follow_external_links = followExternalLinks opts,
      cfg_timeout = num_or (timeout opts) 30,
      word_count_threshold = num_or (wordCountThreshold opts) 1\<rparr>"

text \<open>
  The URL and the selector reach the script as text pasted between double quotes
  (\<open>"${options.url}"\<close>, \<open>"${options.waitForSelector || ''}"\<close>). Python reads such a literal
  back as the same text when it holds no double quote, backslash, line feed, carriage
  return or null character. The other values are pasted as numbers, as \<open>True\<close> or \<open>False\<close>,
  and as the JSON text of the headers, which Python reads back as they are.
\<close>

definition pastes_cleanly :: "string \<Rightarrow> bool" where
  "pastes_cleanly s =
     list_all (\<lambda>c. c \<notin> set [CHR 0x22, CHR 0x5C, CHR 0x0A, CHR 0x0D, CHR 0x00]) s"

definition pasted_as_written :: "crawl_request \<Rightarrow> bool" where
  "pasted_as_written opts =
     (pastes_cleanly (url opts) \<and> pastes_cleanly (str_or (waitForSelector opts) []))"

text \<open>
  The text of the script is made from the request without \<open>cleanMode\<close>, \<open>extractMetadata\<close>,
  \<open>excludePatterns\<close> and \<open>includePatterns\<close>, which the template does not mention: two
  requests that agree on the other fields give the same script.
\<close>

definition script_fields :: "crawl_request \<Rightarrow> crawl_request" where
  "script_fields opts =
     opts\<lparr>cleanMode := True, extractMetadata := False, excludePatterns := [],
          includePatterns := []\<rparr>"

text \<open>
  \<open>crawl_url\<close>, run to its end: it prints the result of the first strategy that succeeds
  and exits with 0, or prints the error of the fallback and exits with 1. When the pasted
  texts do not read back as themselves, the script is another one, and how its run ends
  is left to \<open>altered_script\<close>.
\<close>

definition crawl_url :: "env \<Rightarrow> crawl_request \<Rightarrow> py_exit" where
  "crawl_url E opts =
     (if \<not> pasted_as_written opts then altered_script E (script_fields opts)
      else
        let config = make_config opts
        in case crawl4ai_attempt E opts of
             Inr output \<Rightarrow> Exit0 output
           | Inl crawl4ai_error \<Rightarrow>
               (case fallback_crawl E opts (url opts) config of
                  Inr result \<Rightarrow> Exit0 result
                | Inl e \<Rightarrow> Exit1 e))"

text \<open>The last piece of \<open>s.split('\n')\<close>, which is what \<open>pop()\<close> takes.\<close>

fun last_piece :: "string \<Rightarrow> string \<Rightarrow> string" where
  "last_piece cur [] = cur"
| "last_piece cur (c # cs) = (if c = CHR 0x0A then last_piece [] cs else last_piece (cur @ [c]) cs)"

text \<open>
  The \<open>close\<close> and \<open>error\<close> handlers of \<open>crawlWithPython\<close>: the promise resolves with the
  markdown and the title (\<open>||\<close> replaces an empty or null value), or is rejected with a
  message. On another exit code than 0 the message is the \<open>error\<close> text of the last line of
  the standard error; when that line is not JSON it is taken from the raw standard error,
  and \<open>Failed to crawl the page\<close> stands in for an empty one.
\<close>

record crawl_output =
  out_markdown :: string
  out_title :: string

definition resolved :: "py_output \<Rightarrow> crawl_output" where
  "resolved result =
     \<lparr>out_markdown = markdown result, out_title = str_or (title result) ''Untitled''\<rparr>"

definition on_close :: "py_exit \<Rightarrow> exn + crawl_output" where
  "on_close x =
     (case x of
        Exit0 result \<Rightarrow> Inr (resolved result)
      | Exit0_error e result \<Rightarrow> (if e \<noteq> [] then Inl e else Inr (resolved result))
      | Exit0_unparsed m \<Rightarrow> Inl (''Failed to parse crawl result: '' @ m)
      | Exit1 e \<Rightarrow> Inl (if e = [] then ''Failed to crawl the page'' else e)
      | Exit_other stderr \<Rightarrow>
          Inl (if stderr = [] then ''Failed to crawl the page''
               else if sublist ''crawl4ai'' stderr
               then ''Crawl4AI error: '' @ last_piece [] stderr
               else if last_piece [] stderr = [] then ''Failed to crawl the page''
               else last_piece [] stderr)
      | Spawn_error m \<Rightarrow>
          Inl (if sublist ''ENOENT'' m
               then ''Python3 not found. Please install Python 3 and crawl4ai package.''
               else ''Python execution failed: '' @ m))"

text \<open>
  \<open>crawlWithPython\<close>: the script is written and \<open>python3\<close> started on it; the promise is
  settled from the way the run ends.
\<close>

definition crawlWithPython :: "env \<Rightarrow> crawl_request \<Rightarrow> exn + crawl_output" where
  "crawlWithPython E opts =
     on_close (case interrupted E (script_fields opts) of
                 Some x \<Rightarrow> x
               | None \<Rightarrow> crawl_url E opts)"

text \<open>
  \<open>POST /api/crawl\<close> after validation: the row handed to \<open>storage.createCrawlResult\<close>, or
  the message of the 500 answer.
\<close>

record insert_crawl_result =
  r_url :: string
  r_markdown :: string
  r_title :: string
  characterCount :: nat
  wordCount :: nat

definition post_api_crawl :: "env \<Rightarrow> crawl_request \<Rightarrow> string + insert_crawl_result" where
  "post_api_crawl E validatedData =
     (case crawlWithPython E validatedData of
        Inl message \<Rightarrow> Inl message
      | Inr result \<Rightarrow>
          Inr \<lparr>r_url = url validatedData,
               r_markdown = out_markdown result,
               r_title = out_title result,
               characterCount = length (out_markdown result),
               wordCount = (if js_trim (out_markdown result) \<noteq> []
                            then length (js_split_ws [] (js_trim (out_markdown result)))
                            else 0)\<rparr>)"

section \<open>Notions of the specification\<close>

text \<open>
  A line the content filter is said to keep: blank, starting with the heading marker, or
  of at least \<open>t\<close> words.
\<close>

definition kept_line :: "rat \<Rightarrow> string \<Rightarrow> bool" where
  "kept_line t line =
     (py_strip line = [] \<or> prefix ''#'' line \<or> t \<le> of_nat (length (py_split line)))"

text \<open>
  Removing the image elements, as the specification words it: every \<open>img\<close> element goes,
  with what it contains, and everything else stays where it is.
\<close>

fun without_images :: "node \<Rightarrow> node list" where
  "without_images (Tag n a cs) =
     (if n = ''img'' then [] else [Tag n a (concat (map without_images cs))])"
| "without_images (NavigableString s) = [NavigableString s]"


text \<open>
  The rule of the specification for link extraction: it runs on a fetched page when the
  page count is below the limit and the page's layer \<open>d\<close> (link hops from the seed) is
  below the depth limit.
\<close>

definition spec_extracts :: "config \<Rightarrow> nat \<Rightarrow> nat \<Rightarrow> bool" where
  "spec_extracts cfg pages d = (of_nat pages < max_pages cfg \<and> of_nat d < crawl_depth cfg)"

section \<open>A small web for examples\<close>

text \<open>
  Three addresses on host \<open>a\<close>: \<open>http://a/\<close> links to \<open>http://a/b\<close>, \<open>http://a/c\<close> and to another
  host; \<open>http://a/c\<close> links to \<open>http://a/b\<close> and back to \<open>http://a/\<close>; \<open>http://a/b\<close> answers 404,
  as does every other address. The library functions are simple stand-ins: the netloc of
  \<open>http://host/path\<close> is read off, the converter returns the text of the tree,
  Crawl4AI is not installed, \<open>python3\<close> runs every script to its end, and a script
  whose text was changed by what was pasted stops with a syntax error.
\<close>

definition demo_soup :: "string \<Rightarrow> soup" where
  "demo_soup content =
     (if content = ''A'' then
        [Tag ''title'' [] [NavigableString ''Home''],
         Tag ''a'' [(''href'', ''http://a/b'')] [],
         Tag ''a'' [(''href'', ''http://a/c'')] [],
         Tag ''a'' [(''href'', ''http://x/'')] [],
         Tag ''img'' [(''src'', ''i.png'')] [],
         Tag ''p'' [] [NavigableString ''hello world'']]
      else if content = ''C'' then
        [Tag ''title'' [] [NavigableString ''Third''],
         Tag ''a'' [(''href'', ''http://a/b'')] [],
         Tag ''a'' [(''href'', ''http://a/'')] [],
         Tag ''p'' [] [NavigableString ''bye'']]
      else [])"

definition demo_env :: env where
  "demo_env =
     \<lparr>requests_get = (\<lambda>n u h t. if u = ''http://a/'' then Inr ''A''
                                else if u = ''http://a/c'' then Inr ''C''
                                else Inl ''404 Client Error''),
      html_parser = (\<lambda>c. Inr (demo_soup c)),
      urljoin = (\<lambda>b h. Inr (b @ h)),
      urlparse_netloc = (\<lambda>u. Inr (takeWhile (\<lambda>c. c \<noteq> CHR ''/'') (drop 7 u))),
      soup_select = (\<lambda>sp sel. Inr []),
      html2text_handle = (\<lambda>il ii sp. Inr (concat (map get_text sp))),
      crawl4ai_arun = (\<lambda>p. Inl ''No module named crawl4ai''),
      interrupted = (\<lambda>r. None),
      altered_script = (\<lambda>r. Exit_other (''SyntaxError: invalid syntax'' @ [CHR 0x0A]))\<rparr>"

definition demo_request :: crawl_request where
  "demo_request =
     \<lparr>url = ''http://a/'', removeImages = False, removeLinks = False, cleanMode = True,
      extractMetadata = False, crawlDepth = 2, maxPages = 5, includeSubdomains = False,
      followExternalLinks = False, waitForSelector = None, excludePatterns = [],
      includePatterns = [], customHeaders = [], timeout = 30, extractImages = False,
      extractTables = True, wordCountThreshold = 1, onlyMainContent = True\<rparr>"



text \<open>The markdown of the specification's filter scenario.\<close>

definition demo_markdown :: string where
  "demo_markdown =
     ''# Title'' @ [CHR 0x0A] @ ''short'' @ [CHR 0x0A] @ ''this line has five words ok''
     @ [CHR 0x0A, CHR 0x0A] @ ''last''"


section \<open>The states of the loop\<close>




section \<open>The content filter\<close>

lemma filter_lines_filter:
  "filter_lines t acc ls = acc @ filter (kept_line t) ls"
  by (induction ls arbitrary: acc) (auto simp: kept_line_def)

lemma split_on_no_delim:
  "d \<notin> set cur \<Longrightarrow> l \<in> set (split_on d cur s) \<Longrightarrow> d \<notin> set l"
proof (induction s arbitrary: cur)
  case Nil
  then show ?case by simp
next
  case (Cons c cs)
  show ?case
  proof (cases "c = d")
    case True
    with Cons.prems have "l = cur \<or> l \<in> set (split_on d [] cs)" by simp
    then show ?thesis using Cons.prems(1) Cons.IH [of "[]"] by auto
  next
    case False
    with Cons.prems have "l \<in> set (split_on d (cur @ [c]) cs)" by simp
    then show ?thesis using Cons.prems(1) False Cons.IH [of "cur @ [c]"] by auto
  qed
qed

lemma split_on_append:
  "d \<notin> set x \<Longrightarrow> split_on d cur (x @ s) = split_on d (cur @ x) s"
  by (induction x arbitrary: cur) auto

lemma split_on_join:
  "ls \<noteq> [] \<Longrightarrow> (\<And>l. l \<in> set ls \<Longrightarrow> d \<notin> set l) \<Longrightarrow> split_on d [] (py_join [d] ls) = ls"
proof (induction "[d]" ls rule: py_join.induct)
  case 1
  then show ?case by simp
next
  case (2 x)
  then show ?case using split_on_append [of d x "[]" "[]"] by simp
next
  case (3 x y ys)
  have "split_on d [] (x @ d # py_join [d] (y # ys)) = split_on d x (d # py_join [d] (y # ys))"
    using split_on_append [of d x "[]"] 3 by simp
  with 3 show ?case by simp
qed

text \<open>
  Claim C8. With a threshold of at most 1 (0 included, which the script replaces by 1) the
  content filter returns its markdown unchanged. With a threshold \<open>t\<close> above 1 the result is
  the lines that are blank, start with \<open>#\<close> or have at least \<open>t\<close> words, in their original
  order, joined by line feeds; when at least one line is kept, the lines of the result
  are exactly the kept lines.
\<close>

theorem content_filter_lines:
  "(t \<le> 1 \<longrightarrow> content_filter t md = md)
   \<and> (1 < t \<longrightarrow>
        content_filter t md = py_join [CHR 0x0A] (filter (kept_line t) (split_nl md))
        \<and> (filter (kept_line t) (split_nl md) \<noteq> [] \<longrightarrow>
             split_nl (content_filter t md) = filter (kept_line t) (split_nl md)))"
proof (intro conjI impI)
  assume "t \<le> 1"
  then show "content_filter t md = md"
    by (simp add: content_filter_def num_or_def)
next
  assume t: "1 < t"
  then show eq: "content_filter t md = py_join [CHR 0x0A] (filter (kept_line t) (split_nl md))"
    by (simp add: content_filter_def num_or_def filter_lines_filter)
  assume ne: "filter (kept_line t) (split_nl md) \<noteq> []"
  have "\<And>l. l \<in> set (filter (kept_line t) (split_nl md)) \<Longrightarrow> CHR 0x0A \<notin> set l"
    using split_on_no_delim [of "CHR 0x0A" "[]"] by (auto simp: split_nl_def)
  from split_on_join [OF ne this] eq
  show "split_nl (content_filter t md) = filter (kept_line t) (split_nl md)"
    by (simp add: split_nl_def)
qed

theorem content_filter_lines_witness:
  "content_filter 1 demo_markdown = demo_markdown
   \<and> content_filter 0 demo_markdown = demo_markdown
   \<and> content_filter 5 demo_markdown
       = ''# Title'' @ [CHR 0x0A] @ ''this line has five words ok'' @ [CHR 0x0A]
   \<and> split_nl (content_filter 5 demo_markdown)
       = [''# Title'', ''this line has five words ok'', [] ]"
proof -
  have k: "filter (kept_line 5) (split_nl demo_markdown)
           = [''# Title'', ''this line has five words ok'', [] ]"
    by code_simp
  have c1: "content_filter 1 demo_markdown = demo_markdown"
    using content_filter_lines [of 1 demo_markdown] by simp
  have c0: "content_filter 0 demo_markdown = demo_markdown"
    using content_filter_lines [of 0 demo_markdown] by simp
  have c5: "content_filter 5 demo_markdown
            = ''# Title'' @ [CHR 0x0A] @ ''this line has five words ok'' @ [CHR 0x0A]"
    using content_filter_lines [of 5 demo_markdown] k by simp
  have lt: "(1::rat) < 5" by simp
  have ne: "filter (kept_line 5) (split_nl demo_markdown) \<noteq> []" using k by simp
  from content_filter_lines [of 5 demo_markdown] lt ne
  have "split_nl (content_filter 5 demo_markdown) = filter (kept_line 5) (split_nl demo_markdown)"
    by blast
  then have s5: "split_nl (content_filter 5 demo_markdown)
            = [''# Title'', ''this line has five words ok'', [] ]"
    using k by (rule trans)
  show ?thesis
    by (rule conjI [OF c1 conjI [OF c0 conjI [OF c5 s5]]])
qed

section \<open>The stored counts\<close>

lemma tokens_dropWhile: "tokens_with sp [] (dropWhile sp s) = tokens_with sp [] s"
  by (induction s) auto

lemma tokens_snoc_space: "sp c \<Longrightarrow> tokens_with sp cur (s @ [c]) = tokens_with sp cur s"
  by (induction s arbitrary: cur) auto

lemma tokens_rev_dropWhile:
  "tokens_with sp cur (rev (dropWhile sp xs)) = tokens_with sp cur (rev xs)"
  by (induction xs) (auto simp: tokens_snoc_space)

lemma tokens_strip: "tokens_with sp [] (strip_with sp s) = tokens_with sp [] s"
  using tokens_rev_dropWhile [of sp "[]" "rev (dropWhile sp s)"]
  by (simp add: strip_with_def tokens_dropWhile)

lemma js_split_tokens:
  "(cur \<noteq> [] \<or> (s \<noteq> [] \<and> \<not> js_isspace (hd s))) \<Longrightarrow> (s \<noteq> [] \<Longrightarrow> \<not> js_isspace (last s))
   \<Longrightarrow> js_split_ws cur s = tokens_with js_isspace cur s"
proof (induction cur s rule: js_split_ws.induct)
  case (1 cur)
  then show ?case by simp
next
  case (2 cur c cs)
  show ?case
  proof (cases "js_isspace c")
    case True
    with 2 have cur: "cur \<noteq> []" and cs: "cs \<noteq> []" and l: "\<not> js_isspace (last cs)"
      by (auto split: if_splits)
    from cs l have ne: "dropWhile js_isspace cs \<noteq> []"
      by (metis dropWhile_eq_Nil_conv last_in_set)
    then have hd: "\<not> js_isspace (hd (dropWhile js_isspace cs))"
      by (rule hd_dropWhile)
    have "last (dropWhile js_isspace cs) = last cs"
      using ne by (metis last_appendR takeWhile_dropWhile_id)
    with l have la: "\<not> js_isspace (last (dropWhile js_isspace cs))" by simp
    from "2.IH"(1) [OF True] ne hd la
    have "js_split_ws [] (dropWhile js_isspace cs) = tokens_with js_isspace [] cs"
      by (simp add: tokens_dropWhile)
    with True cur show ?thesis by simp
  next
    case False
    with 2 have "cs \<noteq> [] \<Longrightarrow> \<not> js_isspace (last cs)" by (auto split: if_splits)
    with "2.IH"(2) [OF False] False show ?thesis by simp
  qed
qed

lemma strip_ends:
  assumes "strip_with sp s \<noteq> []"
  shows "\<not> sp (hd (strip_with sp s)) \<and> \<not> sp (last (strip_with sp s))"
proof -
  let ?u = "dropWhile sp s"
  let ?t = "rev (dropWhile sp (rev ?u))"
  from assms have t: "?t \<noteq> []" by (simp add: strip_with_def)
  then have "dropWhile sp (rev ?u) \<noteq> []" by simp
  then have "\<not> sp (hd (dropWhile sp (rev ?u)))" by (rule hd_dropWhile)
  then have l: "\<not> sp (last ?t)" using t by (simp add: last_rev)
  have "?u = ?t @ rev (takeWhile sp (rev ?u))"
    by (metis rev_append rev_rev_ident takeWhile_dropWhile_id)
  then have "hd ?u = hd ?t" using t by (metis hd_append2)
  moreover have "?u \<noteq> []" using t by (cases "dropWhile sp s") simp_all
  then have "\<not> sp (hd ?u)" by (rule hd_dropWhile)
  ultimately show ?thesis using l by (simp add: strip_with_def)
qed

lemma js_word_count:
  "(if js_trim md \<noteq> [] then length (js_split_ws [] (js_trim md)) else 0)
   = length (tokens_with js_isspace [] md)"
proof (cases "js_trim md = []")
  case True
  then show ?thesis using tokens_strip [of js_isspace md] by (simp add: js_trim_def)
next
  case False
  with strip_ends [of js_isspace md]
  have "js_split_ws [] (js_trim md) = tokens_with js_isspace [] (js_trim md)"
    by (intro js_split_tokens) (auto simp: js_trim_def)
  with False show ?thesis using tokens_strip [of js_isspace md] by (simp add: js_trim_def)
qed

lemma tokens_all_space: "list_all sp s \<Longrightarrow> tokens_with sp [] s = []"
  by (induction s) auto

text \<open>
  Claim C9. Whenever the route stores a row, its \<open>characterCount\<close> is the length of the
  combined markdown the crawl returned and its \<open>wordCount\<close> is the number of
  white-space-delimited tokens of that markdown, which is 0 when the markdown is empty or
  all white space.
\<close>

theorem stored_counts:
  "post_api_crawl E req = Inr row \<Longrightarrow>
     (\<exists>out. crawlWithPython E req = Inr out \<and> r_markdown row = out_markdown out)
     \<and> characterCount row = length (r_markdown row)
     \<and> wordCount row = length (tokens_with js_isspace [] (r_markdown row))
     \<and> (list_all js_isspace (r_markdown row) \<longrightarrow> wordCount row = 0)"
proof -
  assume a: "post_api_crawl E req = Inr row"
  then obtain out where out: "crawlWithPython E req = Inr out"
    by (cases "crawlWithPython E req") (simp_all add: post_api_crawl_def)
  with a have row: "r_markdown row = out_markdown out"
      "characterCount row = length (out_markdown out)"
      "wordCount row = (if js_trim (out_markdown out) \<noteq> []
                        then length (js_split_ws [] (js_trim (out_markdown out))) else 0)"
    by (auto simp: post_api_crawl_def)
  have wc: "wordCount row = length (tokens_with js_isspace [] (r_markdown row))"
    using row(1,3) js_word_count [of "out_markdown out"] by simp
  show ?thesis
    using out row(1,2) wc tokens_all_space [of js_isspace "r_markdown row"] by simp
qed

theorem stored_counts_witness:
  "post_api_crawl demo_env demo_request
     = Inr \<lparr>r_url = ''http://a/'',
            r_markdown = ''Homehello world'' @ [CHR 0x0A, CHR 0x0A, CHR 0x0A, CHR 0x0A]
                         @ ''--- Page 2: http://a/c ---''
                         @ [CHR 0x0A, CHR 0x0A, CHR 0x0A, CHR 0x0A] @ ''Thirdbye'',
            r_title = ''Home'', characterCount = 57, wordCount = 8\<rparr>
   \<and> length (tokens_with js_isspace [] (''Homehello world'' @ [CHR 0x0A, CHR 0x0A, CHR 0x0A, CHR 0x0A]
                         @ ''--- Page 2: http://a/c ---''
                         @ [CHR 0x0A, CHR 0x0A, CHR 0x0A, CHR 0x0A] @ ''Thirdbye'')) = 8"
proof -
  have h: "post_api_crawl demo_env demo_request
     = Inr \<lparr>r_url = ''http://a/'',
            r_markdown = ''Homehello world'' @ [CHR 0x0A, CHR 0x0A, CHR 0x0A, CHR 0x0A]
                         @ ''--- Page 2: http://a/c ---''
                         @ [CHR 0x0A, CHR 0x0A, CHR 0x0A, CHR 0x0A] @ ''Thirdbye'',
            r_title = ''Home'', characterCount = 57, wordCount = 8\<rparr>"
    by code_simp
  from stored_counts [OF h] h show ?thesis by simp
qed


section \<open>The sanitizer\<close>

lemma named_prune: "named ns (prune P n) = named ns n"
  by (cases n) simp_all

lemma tags_of_prune_named:
  "\<not> named ns n \<Longrightarrow> m \<in> set (tags_of (prune (named ns) n)) \<Longrightarrow> \<not> named ns m"
proof (induction n arbitrary: m)
  case (Tag nm a cs)
  from Tag.prems(2) consider "m = prune (named ns) (Tag nm a cs)"
    | c where "c \<in> set cs" "\<not> named ns c" "m \<in> set (tags_of (prune (named ns) c))"
    by auto
  then show ?case
  proof cases
    case 1
    with Tag.prems(1) show ?thesis by (simp del: prune.simps add: named_prune)
  next
    case 2
    with Tag.IH show ?thesis by blast
  qed
next
  case (NavigableString s)
  then show ?case by simp
qed

lemma find_all_decompose_named:
  "find_all (named ns) (decompose_all (named ns) sp) = []"
  by (auto simp: find_all_def decompose_all_def filter_empty_conv dest: tags_of_prune_named)

lemma concat_without_images:
  "(\<And>c. c \<in> set cs \<Longrightarrow>
      without_images c = (if named [''img''] c then [] else [prune (named [''img'']) c]))
   \<Longrightarrow> concat (map without_images cs)
       = map (prune (named [''img''])) (filter (\<lambda>c. \<not> named [''img''] c) cs)"
  by (induction cs) auto

lemma without_images_prune:
  "without_images n = (if named [''img''] n then [] else [prune (named [''img'']) n])"
proof (induction n)
  case (Tag nm a cs)
  then show ?case using concat_without_images [of cs] by simp
next
  case (NavigableString s)
  then show ?case by simp
qed

lemma decompose_all_img:
  "decompose_all (named [''img'']) sp = concat (map without_images sp)"
  using concat_without_images [of sp] without_images_prune
  by (simp add: decompose_all_def)

lemma prune_no_match:
  "(\<And>m. m \<in> set (tags_of n) \<Longrightarrow> \<not> named ns m) \<Longrightarrow> prune (named ns) n = n"
proof (induction n)
  case (Tag nm a cs)
  have k: "\<And>c. c \<in> set cs \<Longrightarrow> \<not> named ns c"
  proof -
    fix c assume c: "c \<in> set cs"
    show "\<not> named ns c"
    proof (cases c)
      case (Tag n' a' cs')
      with c have "c \<in> set (tags_of (node.Tag nm a cs))" by force
      then show ?thesis using Tag.prems by blast
    next
      case (NavigableString s)
      then show ?thesis by simp
    qed
  qed
  have "\<And>c. c \<in> set cs \<Longrightarrow> prune (named ns) c = c"
  proof -
    fix c assume c: "c \<in> set cs"
    have "\<And>m. m \<in> set (tags_of c) \<Longrightarrow> \<not> named ns m"
      using Tag.prems c by auto
    with Tag.IH c show "prune (named ns) c = c" by blast
  qed
  with k show ?case by (simp add: map_idI)
next
  case (NavigableString s)
  then show ?case by simp
qed

lemma decompose_all_no_match:
  assumes "find_all (named ns) sp = []"
  shows "decompose_all (named ns) sp = sp"
proof -
  from assms have n: "\<And>c m. c \<in> set sp \<Longrightarrow> m \<in> set (tags_of c) \<Longrightarrow> \<not> named ns m"
    by (auto simp: find_all_def filter_empty_conv)
  have k: "\<And>c. c \<in> set sp \<Longrightarrow> \<not> named ns c"
  proof -
    fix c assume c: "c \<in> set sp"
    show "\<not> named ns c"
    proof (cases c)
      case (Tag n' a' cs')
      then have "c \<in> set (tags_of c)" by simp
      with n c show ?thesis by blast
    next
      case (NavigableString s)
      then show ?thesis by simp
    qed
  qed
  have "\<And>c. c \<in> set sp \<Longrightarrow> prune (named ns) c = c"
    using n prune_no_match by blast
  with k show ?thesis by (simp add: decompose_all_def map_idI)
qed

text \<open>
  Claim C7. When \<open>extractImages\<close> is false and \<open>removeImages\<close> is true, the image step of the
  sanitizer removes the \<open>img\<close> elements and nothing else: its result is the page without
  its \<open>img\<close> elements, no \<open>img\<close> element is left, and the same holds of the sanitizer
  after the script and table steps. When \<open>extractImages\<close> is true or \<open>removeImages\<close> is
  false, the image step changes nothing: the sanitizer returns what the script and table
  steps left. In either case a page without \<open>img\<close> elements passes the image step
  unchanged.
\<close>

theorem image_removal_gate:
  "(\<not> extractImages opts \<and> removeImages opts \<longrightarrow>
      handle_images opts sp = concat (map without_images sp)
      \<and> find_all (named [''img'']) (handle_images opts sp) = []
      \<and> find_all (named [''img'']) (sanitize opts sp) = []
      \<and> sanitize opts sp
          = concat (map without_images (handle_tables opts (remove_unwanted opts sp))))
   \<and> (extractImages opts \<or> \<not> removeImages opts \<longrightarrow>
      handle_images opts sp = sp
      \<and> sanitize opts sp = handle_tables opts (remove_unwanted opts sp))
   \<and> (find_all (named [''img'']) sp = [] \<longrightarrow> handle_images opts sp = sp)"
proof -
  have g: "\<And>p. \<not> extractImages opts \<and> removeImages opts \<Longrightarrow>
             handle_images opts p = decompose_all (named [''img'']) p"
    by (simp add: handle_images_def)
  have n: "\<And>p. extractImages opts \<or> \<not> removeImages opts \<Longrightarrow> handle_images opts p = p"
    by (auto simp: handle_images_def)
  have i: "find_all (named [''img'']) sp = [] \<longrightarrow> handle_images opts sp = sp"
    using decompose_all_no_match [of "[''img'']" sp] by (simp add: handle_images_def)
  have s: "sanitize opts sp = handle_images opts (handle_tables opts (remove_unwanted opts sp))"
    by (simp add: sanitize_def)
  show ?thesis
    using g [of sp] g [of "handle_tables opts (remove_unwanted opts sp)"]
      n [of sp] n [of "handle_tables opts (remove_unwanted opts sp)"] i s
      find_all_decompose_named [of "[''img'']"] decompose_all_img
    by metis
qed

theorem image_removal_gate_witness:
  "find_all (named [''img'']) (demo_soup ''A'') = [Tag ''img'' [(''src'', ''i.png'')] []]
   \<and> handle_images (demo_request\<lparr>removeImages := True\<rparr>) (demo_soup ''A'')
       = [Tag ''title'' [] [NavigableString ''Home''],
          Tag ''a'' [(''href'', ''http://a/b'')] [],
          Tag ''a'' [(''href'', ''http://a/c'')] [],
          Tag ''a'' [(''href'', ''http://x/'')] [],
          Tag ''p'' [] [NavigableString ''hello world'']]
   \<and> find_all (named [''img''])
        (handle_images (demo_request\<lparr>removeImages := True\<rparr>) (demo_soup ''A'')) = []
   \<and> handle_images (demo_request\<lparr>removeImages := True\<rparr>)
         [Tag ''div'' [] [Tag ''img'' [] [], Tag ''p'' [] [NavigableString ''x'', Tag ''img'' [] []]]]
       = [Tag ''div'' [] [Tag ''p'' [] [NavigableString ''x'']]]
   \<and> handle_images demo_request (demo_soup ''A'') = demo_soup ''A''
   \<and> handle_images (demo_request\<lparr>removeImages := True, extractImages := True\<rparr>) (demo_soup ''A'')
       = demo_soup ''A''"
proof -
  let ?nested = "[Tag ''div'' [] [Tag ''img'' [] [], Tag ''p'' [] [NavigableString ''x'', Tag ''img'' [] []]]]"
  have wn: "concat (map without_images ?nested) = [Tag ''div'' [] [Tag ''p'' [] [NavigableString ''x'']]]"
    by code_simp
  have a: "find_all (named [''img'']) (demo_soup ''A'') = [Tag ''img'' [(''src'', ''i.png'')] []]"
    by code_simp
  have w: "concat (map without_images (demo_soup ''A''))
       = [Tag ''title'' [] [NavigableString ''Home''],
          Tag ''a'' [(''href'', ''http://a/b'')] [],
          Tag ''a'' [(''href'', ''http://a/c'')] [],
          Tag ''a'' [(''href'', ''http://x/'')] [],
          Tag ''p'' [] [NavigableString ''hello world'']]"
    by code_simp
  have g1: "\<not> extractImages (demo_request\<lparr>removeImages := True\<rparr>)
            \<and> removeImages (demo_request\<lparr>removeImages := True\<rparr>)"
    by (simp add: demo_request_def)
  have g2: "extractImages demo_request \<or> \<not> removeImages demo_request"
    by (simp add: demo_request_def)
  have g3: "extractImages (demo_request\<lparr>removeImages := True, extractImages := True\<rparr>)
            \<or> \<not> removeImages (demo_request\<lparr>removeImages := True, extractImages := True\<rparr>)"
    by simp
  from image_removal_gate [of "demo_request\<lparr>removeImages := True\<rparr>" "demo_soup ''A''"] g1
  have b0: "handle_images (demo_request\<lparr>removeImages := True\<rparr>) (demo_soup ''A'')
            = concat (map without_images (demo_soup ''A''))"
    and b: "find_all (named [''img''])
        (handle_images (demo_request\<lparr>removeImages := True\<rparr>) (demo_soup ''A'')) = []"
    by blast+
  from b0 w have b1: "handle_images (demo_request\<lparr>removeImages := True\<rparr>) (demo_soup ''A'')
       = [Tag ''title'' [] [NavigableString ''Home''],
          Tag ''a'' [(''href'', ''http://a/b'')] [],
          Tag ''a'' [(''href'', ''http://a/c'')] [],
          Tag ''a'' [(''href'', ''http://x/'')] [],
          Tag ''p'' [] [NavigableString ''hello world'']]"
    by (rule trans)
  from image_removal_gate [of "demo_request\<lparr>removeImages := True\<rparr>" ?nested] g1
  have "handle_images (demo_request\<lparr>removeImages := True\<rparr>) ?nested
        = concat (map without_images ?nested)"
    by blast
  then have b2: "handle_images (demo_request\<lparr>removeImages := True\<rparr>) ?nested
        = [Tag ''div'' [] [Tag ''p'' [] [NavigableString ''x'']]]"
    using wn by (rule trans)
  from image_removal_gate [of demo_request "demo_soup ''A''"] g2
  have c: "handle_images demo_request (demo_soup ''A'') = demo_soup ''A''" by blast
  from image_removal_gate [of "demo_request\<lparr>removeImages := True, extractImages := True\<rparr>" "demo_soup ''A''"] g3
  have d: "handle_images (demo_request\<lparr>removeImages := True, extractImages := True\<rparr>) (demo_soup ''A'')
       = demo_soup ''A''" by blast
  show ?thesis by (rule conjI [OF a conjI [OF b1 conjI [OF b conjI [OF b2 conjI [OF c d]]]]])
qed

section \<open>The strategy selector\<close>




text \<open>
  Outside these conditions the promise is settled from the way the run ends. A selector
  with a double quote in it changes the text of the script; in the example web the run
  stops with a syntax error, its standard error ends with a line feed, and the call is
  rejected with the default message. A run that \<open>spawn\<close> kills, with nothing on the
  standard error, is rejected in the same way.
\<close>

lemma other_endings:
  "crawlWithPython demo_env
     (demo_request\<lparr>waitForSelector := Some (''a[href='' @ [CHR 0x22] @ ''x'' @ [CHR 0x22] @ '']'')\<rparr>)
   = Inl ''Failed to crawl the page''"
  "crawlWithPython (demo_env\<lparr>interrupted := (\<lambda>r. Some (Exit_other []))\<rparr>) demo_request
   = Inl ''Failed to crawl the page''"
  "crawlWithPython (demo_env\<lparr>interrupted := (\<lambda>r. Some (Spawn_error ''spawn python3 ENOENT''))\<rparr>)
     demo_request
   = Inl ''Python3 not found. Please install Python 3 and crawl4ai package.''"
  by code_simp+

section \<open>Reasoning about the loop\<close>

lemma crawl_loop_done:
  "urls_to_visit s = [] \<or> \<not> of_nat (pages_crawled s) < max_pages cfg
   \<Longrightarrow> crawl_loop E opts cfg b s = s"
  by (subst crawl_loop.simps) (auto split: list.splits)

lemma crawl_loop_skip:
  "urls_to_visit s = u # rest \<Longrightarrow> of_nat (pages_crawled s) < max_pages cfg
   \<Longrightarrow> u \<in> visited_urls s
   \<Longrightarrow> crawl_loop E opts cfg b s = crawl_loop E opts cfg b (s\<lparr>urls_to_visit := rest\<rparr>)"
  by (subst crawl_loop.simps) simp

lemma crawl_loop_visit:
  "urls_to_visit s = u # rest \<Longrightarrow> of_nat (pages_crawled s) < max_pages cfg
   \<Longrightarrow> u \<notin> visited_urls s
   \<Longrightarrow> crawl_loop E opts cfg b s
       = crawl_loop E opts cfg b (visit_page E opts cfg b u (s\<lparr>urls_to_visit := rest\<rparr>))"
  by (subst crawl_loop.simps) simp

lemma crawl_loop_invariant:
  assumes init: "I s"
    and skip: "\<And>s u rest. I s \<Longrightarrow> urls_to_visit s = u # rest
                 \<Longrightarrow> of_nat (pages_crawled s) < max_pages cfg \<Longrightarrow> u \<in> visited_urls s
                 \<Longrightarrow> I (s\<lparr>urls_to_visit := rest\<rparr>)"
    and visit: "\<And>s u rest. I s \<Longrightarrow> urls_to_visit s = u # rest
                 \<Longrightarrow> of_nat (pages_crawled s) < max_pages cfg \<Longrightarrow> u \<notin> visited_urls s
                 \<Longrightarrow> I (visit_page E opts cfg b u (s\<lparr>urls_to_visit := rest\<rparr>))"
  shows "I (crawl_loop E opts cfg b s)"
  using init skip visit
proof (induction E opts cfg b s rule: crawl_loop.induct)
  case (1 E opts cfg b s)
  note I = "1.prems"(1) and skip = "1.prems"(2) and visit = "1.prems"(3)
  show ?case
  proof (cases "urls_to_visit s")
    case Nil
    with I show ?thesis by (simp add: crawl_loop_done)
  next
    case (Cons u rest)
    show ?thesis
    proof (cases "of_nat (pages_crawled s) < max_pages cfg")
      case False
      with I show ?thesis by (simp add: crawl_loop_done)
    next
      case lt: True
      show ?thesis
      proof (cases "u \<in> visited_urls s")
        case True
        have "I (s\<lparr>urls_to_visit := rest\<rparr>)"
          by (rule skip [OF I Cons lt True])
        then have "I (crawl_loop E opts cfg b (s\<lparr>urls_to_visit := rest\<rparr>))"
          using "1.IH"(1) [OF Cons _ True] lt skip visit by blast
        then show ?thesis by (simp add: crawl_loop_skip [OF Cons lt True])
      next
        case False
        have "I (visit_page E opts cfg b u (s\<lparr>urls_to_visit := rest\<rparr>))"
          by (rule visit [OF I Cons lt False])
        then have "I (crawl_loop E opts cfg b (visit_page E opts cfg b u (s\<lparr>urls_to_visit := rest\<rparr>)))"
          using "1.IH"(2) [OF Cons _ False] lt skip visit by blast
        then show ?thesis by (simp add: crawl_loop_visit [OF Cons lt False])
      qed
    qed
  qed
qed

section \<open>Counting a page\<close>

lemma scan_links_frame:
  "visited_urls (snd (scan_links E cfg b u hs s)) = visited_urls s
   \<and> all_content (snd (scan_links E cfg b u hs s)) = all_content s
   \<and> main_title (snd (scan_links E cfg b u hs s)) = main_title s
   \<and> requested (snd (scan_links E cfg b u hs s)) = requested s"
  by (induction hs arbitrary: s) (auto split: sum.splits option.splits)

lemma process_page_frame:
  "visited_urls (snd (process_page E opts cfg b u content s)) = visited_urls s
   \<and> requested (snd (process_page E opts cfg b u content s)) = requested s"
proof (cases "html_parser E content")
  case (Inl e)
  then show ?thesis by (simp add: process_page_def)
next
  case (Inr sp)
  let ?s1 = "if pages_crawled s = 1 then s\<lparr>main_title := Some (page_title sp)\<rparr> else s"
  obtain err s2 where sc: "scan_links E cfg b u (page_links sp) ?s1 = (err, s2)"
    by (cases "scan_links E cfg b u (page_links sp) ?s1")
  from scan_links_frame [of E cfg b u "page_links sp" ?s1] sc
  have "visited_urls s2 = visited_urls s \<and> requested s2 = requested s" by simp
  with Inr sc show ?thesis
    by (simp add: process_page_def Let_def split: option.splits sum.splits)
qed

lemma process_page_raised:
  assumes "fst (process_page E opts cfg b u content s) \<noteq> None"
  shows "all_content (snd (process_page E opts cfg b u content s)) = all_content s"
proof (cases "html_parser E content")
  case (Inl e)
  then show ?thesis by (simp add: process_page_def)
next
  case (Inr sp)
  let ?s1 = "if pages_crawled s = 1 then s\<lparr>main_title := Some (page_title sp)\<rparr> else s"
  obtain err s2 where sc: "scan_links E cfg b u (page_links sp) ?s1 = (err, s2)"
    by (cases "scan_links E cfg b u (page_links sp) ?s1")
  from scan_links_frame [of E cfg b u "page_links sp" ?s1] sc
  have "all_content s2 = all_content s" by simp
  with Inr sc assms show ?thesis
    by (simp add: process_page_def Let_def split: option.splits sum.splits if_splits)
qed

lemma process_page_raises_if:
  "html_parser E content = Inl e \<or> page_markdown E opts content = Inl e
   \<Longrightarrow> fst (process_page E opts cfg b u content s) \<noteq> None"
  by (auto simp: process_page_def Let_def split: option.splits sum.splits prod.splits)

lemma visit_page_mono:
  "visited_urls s \<subseteq> visited_urls (visit_page E opts cfg b u s)
   \<and> pages_crawled s \<le> pages_crawled (visit_page E opts cfg b u s)"
  using process_page_frame process_page_pages_crawled
  by (auto simp: visit_page_def split: sum.splits)

lemma crawl_loop_mono:
  "visited_urls s \<subseteq> visited_urls (crawl_loop E opts cfg b s)
   \<and> pages_crawled s \<le> pages_crawled (crawl_loop E opts cfg b s)"
proof (rule crawl_loop_invariant
         [where I = "\<lambda>t. visited_urls s \<subseteq> visited_urls t \<and> pages_crawled s \<le> pages_crawled t"])
  show "visited_urls s \<subseteq> visited_urls s \<and> pages_crawled s \<le> pages_crawled s" by simp
next
  fix t :: crawl_state and u rest
  assume "visited_urls s \<subseteq> visited_urls t \<and> pages_crawled s \<le> pages_crawled t"
  then show "visited_urls s \<subseteq> visited_urls (t\<lparr>urls_to_visit := rest\<rparr>)
             \<and> pages_crawled s \<le> pages_crawled (t\<lparr>urls_to_visit := rest\<rparr>)"
    by simp
next
  fix t :: crawl_state and u rest
  assume a: "visited_urls s \<subseteq> visited_urls t \<and> pages_crawled s \<le> pages_crawled t"
  from visit_page_mono [of "t\<lparr>urls_to_visit := rest\<rparr>" E opts cfg b u] a
  show "visited_urls s \<subseteq> visited_urls (visit_page E opts cfg b u (t\<lparr>urls_to_visit := rest\<rparr>))
        \<and> pages_crawled s \<le> pages_crawled (visit_page E opts cfg b u (t\<lparr>urls_to_visit := rest\<rparr>))"
    by auto
qed

text \<open>
  Claim C10. When the request for a URL succeeds, the loop body adds the URL to the
  visited set and counts the page before it processes the content: whatever happens
  afterwards, the URL is visited and \<open>pages_crawled\<close> is one more. If the parse, the link
  extraction or the markdown conversion then raises, nothing is appended to
  \<open>all_content\<close> for that page; the URL is still visited and the page still counted when
  the loop ends. (Extracting the title cannot raise in this model; the parse before it
  can.)
\<close>

theorem counted_before_processing:
  assumes "fetch E opts (length (requested s)) u = Inr content"
  shows "visited_urls (visit_page E opts cfg b u s) = insert u (visited_urls s)
    \<and> pages_crawled (visit_page E opts cfg b u s) = pages_crawled s + 1
    \<and> (html_parser E content = Inl e \<or> page_markdown E opts content = Inl e
        \<or> fst (process_page E opts cfg b u content
                 (s\<lparr>requested := requested s @ [u],
                    visited_urls := insert u (visited_urls s),
                    pages_crawled := pages_crawled s + 1\<rparr>)) = Some e
        \<longrightarrow> all_content (visit_page E opts cfg b u s) = all_content s)
    \<and> u \<in> visited_urls (crawl_loop E opts cfg b (visit_page E opts cfg b u s))
    \<and> pages_crawled s + 1 \<le> pages_crawled (crawl_loop E opts cfg b (visit_page E opts cfg b u s))"
proof -
  let ?s0 = "s\<lparr>requested := requested s @ [u],
                    visited_urls := insert u (visited_urls s),
                    pages_crawled := pages_crawled s + 1\<rparr>"
  have v: "visit_page E opts cfg b u s = snd (process_page E opts cfg b u content ?s0)"
    using assms by (simp add: visit_page_def)
  have a: "visited_urls (visit_page E opts cfg b u s) = insert u (visited_urls s)"
    using v process_page_frame [of E opts cfg b u content ?s0] by simp
  have p: "pages_crawled (visit_page E opts cfg b u s) = pages_crawled s + 1"
    using v process_page_pages_crawled [of E opts cfg b u content ?s0] by simp
  have r: "html_parser E content = Inl e \<or> page_markdown E opts content = Inl e
        \<or> fst (process_page E opts cfg b u content ?s0) = Some e
        \<longrightarrow> all_content (visit_page E opts cfg b u s) = all_content s"
  proof
    assume "html_parser E content = Inl e \<or> page_markdown E opts content = Inl e
        \<or> fst (process_page E opts cfg b u content ?s0) = Some e"
    then have "fst (process_page E opts cfg b u content ?s0) \<noteq> None"
      using process_page_raises_if [of E content e opts cfg b u ?s0] by auto
    from process_page_raised [OF this] v
    show "all_content (visit_page E opts cfg b u s) = all_content s" by simp
  qed
  from crawl_loop_mono [of "visit_page E opts cfg b u s" E opts cfg b] a p
  have m: "u \<in> visited_urls (crawl_loop E opts cfg b (visit_page E opts cfg b u s))"
     and n: "pages_crawled s + 1 \<le> pages_crawled (crawl_loop E opts cfg b (visit_page E opts cfg b u s))"
    by auto
  show ?thesis using a p r m n by blast
qed

theorem counted_before_processing_witness:
  "fetch (demo_env\<lparr>html2text_handle := (\<lambda>il ii sp. Inl ''conversion failed'')\<rparr>) demo_request
     0 ''http://a/'' = Inr ''A''
   \<and> page_markdown (demo_env\<lparr>html2text_handle := (\<lambda>il ii sp. Inl ''conversion failed'')\<rparr>)
       demo_request ''A'' = Inl ''conversion failed''
   \<and> visited_urls (visit_page
         (demo_env\<lparr>html2text_handle := (\<lambda>il ii sp. Inl ''conversion failed'')\<rparr>)
         demo_request (make_config demo_request) ''a'' ''http://a/''
         ((init_state ''http://a/'')\<lparr>urls_to_visit := []\<rparr>)) = {''http://a/''}
   \<and> pages_crawled (visit_page
         (demo_env\<lparr>html2text_handle := (\<lambda>il ii sp. Inl ''conversion failed'')\<rparr>)
         demo_request (make_config demo_request) ''a'' ''http://a/''
         ((init_state ''http://a/'')\<lparr>urls_to_visit := []\<rparr>)) = 1
   \<and> all_content (visit_page
         (demo_env\<lparr>html2text_handle := (\<lambda>il ii sp. Inl ''conversion failed'')\<rparr>)
         demo_request (make_config demo_request) ''a'' ''http://a/''
         ((init_state ''http://a/'')\<lparr>urls_to_visit := []\<rparr>)) = []"
proof -
  let ?E = "demo_env\<lparr>html2text_handle := (\<lambda>il ii sp. Inl ''conversion failed'')\<rparr>"
  let ?s = "(init_state ''http://a/'')\<lparr>urls_to_visit := []\<rparr>"
  have f0: "fetch ?E demo_request 0 ''http://a/'' = Inr ''A''" by code_simp
  then have f: "fetch ?E demo_request (length (requested ?s)) ''http://a/'' = Inr ''A''"
    by (simp add: init_state_def)
  have m: "page_markdown ?E demo_request ''A'' = Inl ''conversion failed''" by code_simp
  from counted_before_processing [OF f, where cfg = "make_config demo_request"
         and b = "''a''" and e = "''conversion failed''"] m
  have "visited_urls (visit_page ?E demo_request (make_config demo_request) ''a'' ''http://a/'' ?s)
          = insert ''http://a/'' (visited_urls ?s)"
    and "pages_crawled (visit_page ?E demo_request (make_config demo_request) ''a'' ''http://a/'' ?s)
          = pages_crawled ?s + 1"
    and "all_content (visit_page ?E demo_request (make_config demo_request) ''a'' ''http://a/'' ?s)
          = all_content ?s"
    by blast+
  with f0 m show ?thesis by (simp add: init_state_def)
qed

section \<open>The link extractor\<close>

lemma admit_link_same_netloc:
  "\<not> include_subdomains cfg \<Longrightarrow> \<not> follow_external_links cfg
   \<Longrightarrow> admit_link E cfg b cur h = Inr (Some u) \<Longrightarrow> urlparse_netloc E u = Inr b"
  by (auto simp: admit_link_def Let_def split: if_splits sum.splits)

text \<open>What the link loop does to the frontier: it appends new, distinct URLs.\<close>

lemma scan_links_appends:
  "\<exists>new. urls_to_visit (snd (scan_links E cfg b cur hs s)) = urls_to_visit s @ new
        \<and> enqueued (snd (scan_links E cfg b cur hs s)) = enqueued s @ new
        \<and> distinct new
        \<and> set new \<inter> (visited_urls s \<union> set (urls_to_visit s)) = {}
        \<and> (\<forall>u \<in> set new. \<exists>h \<in> set hs. admit_link E cfg b cur h = Inr (Some u))"
proof (induction hs arbitrary: s)
  case Nil
  show ?case by simp
next
  case (Cons h hs)
  show ?case
  proof (cases "admit_link E cfg b cur h")
    case (Inl e)
    then show ?thesis by simp
  next
    case (Inr r)
    show ?thesis
    proof (cases r)
      case None
      with Inr Cons [of s] show ?thesis by auto
    next
      case (Some href)
      show ?thesis
      proof (cases "href \<notin> visited_urls s \<and> href \<notin> set (urls_to_visit s)")
        case False
        with Inr Some Cons [of s] show ?thesis by auto
      next
        case True
        let ?s' = "s\<lparr>urls_to_visit := urls_to_visit s @ [href], enqueued := enqueued s @ [href]\<rparr>"
        from Cons [of ?s'] obtain new where
          n: "urls_to_visit (snd (scan_links E cfg b cur hs ?s')) = urls_to_visit ?s' @ new"
             "enqueued (snd (scan_links E cfg b cur hs ?s')) = enqueued ?s' @ new"
             "distinct new"
             "set new \<inter> (visited_urls ?s' \<union> set (urls_to_visit ?s')) = {}"
             "\<forall>u \<in> set new. \<exists>h \<in> set hs. admit_link E cfg b cur h = Inr (Some u)"
          by blast
        have eq: "scan_links E cfg b cur (h # hs) s = scan_links E cfg b cur hs ?s'"
          using Inr Some True by simp
        have "urls_to_visit (snd (scan_links E cfg b cur (h # hs) s)) = urls_to_visit s @ (href # new)"
          using n(1) eq by simp
        moreover have "enqueued (snd (scan_links E cfg b cur (h # hs) s)) = enqueued s @ (href # new)"
          using n(2) eq by simp
        moreover have "distinct (href # new)"
          using n(3,4) by auto
        moreover have "set (href # new) \<inter> (visited_urls s \<union> set (urls_to_visit s)) = {}"
          using n(4) True by auto
        moreover have "\<forall>u \<in> set (href # new). \<exists>h' \<in> set (h # hs). admit_link E cfg b cur h' = Inr (Some u)"
          using n(5) Inr Some by auto
        ultimately show ?thesis by blast
      qed
    qed
  qed
qed

text \<open>The same for the whole loop body.\<close>

lemma visit_page_appends:
  "\<exists>new. urls_to_visit (visit_page E opts cfg b cur s) = urls_to_visit s @ new
        \<and> enqueued (visit_page E opts cfg b cur s) = enqueued s @ new
        \<and> distinct new
        \<and> set new \<inter> (insert cur (visited_urls s) \<union> set (urls_to_visit s)) = {}
        \<and> (new \<noteq> [] \<longrightarrow> (\<exists>c. fetch E opts (length (requested s)) cur = Inr c)
              \<and> of_nat (pages_crawled s + 1) < max_pages cfg \<and> 1 < crawl_depth cfg)
        \<and> (\<forall>u \<in> set new. \<exists>h. admit_link E cfg b cur h = Inr (Some u))"
proof (cases "fetch E opts (length (requested s)) cur")
  case (Inl e)
  then show ?thesis by (simp add: visit_page_def)
next
  case (Inr content)
  let ?s0 = "s\<lparr>requested := requested s @ [cur], visited_urls := insert cur (visited_urls s),
               pages_crawled := pages_crawled s + 1\<rparr>"
  have v: "visit_page E opts cfg b cur s = snd (process_page E opts cfg b cur content ?s0)"
    using Inr by (simp add: visit_page_def)
  show ?thesis
  proof (cases "html_parser E content")
    case (Inl e)
    with v show ?thesis by (simp add: process_page_def)
  next
    case (Inr sp)
    let ?s1 = "if pages_crawled ?s0 = 1 then ?s0\<lparr>main_title := Some (page_title sp)\<rparr> else ?s0"
    show ?thesis
    proof (cases "of_nat (pages_crawled ?s1) < max_pages cfg \<and> 1 < crawl_depth cfg")
      case False
      with v Inr have "urls_to_visit (visit_page E opts cfg b cur s) = urls_to_visit s"
          "enqueued (visit_page E opts cfg b cur s) = enqueued s"
        by (auto simp: process_page_def Let_def split: option.splits sum.splits)
      then show ?thesis by simp
    next
      case True
      obtain err s2 where sc: "scan_links E cfg b cur (page_links sp) ?s1 = (err, s2)"
        by (cases "scan_links E cfg b cur (page_links sp) ?s1")
      with v Inr True have "urls_to_visit (visit_page E opts cfg b cur s) = urls_to_visit s2"
          "enqueued (visit_page E opts cfg b cur s) = enqueued s2"
        by (auto simp: process_page_def Let_def split: option.splits sum.splits)
      moreover from scan_links_appends [of E cfg b cur "page_links sp" ?s1] sc
      obtain new where "urls_to_visit s2 = urls_to_visit ?s1 @ new"
         "enqueued s2 = enqueued ?s1 @ new" "distinct new"
         "set new \<inter> (visited_urls ?s1 \<union> set (urls_to_visit ?s1)) = {}"
         "\<forall>u \<in> set new. \<exists>h \<in> set (page_links sp). admit_link E cfg b cur h = Inr (Some u)"
        by auto
      ultimately have "urls_to_visit (visit_page E opts cfg b cur s) = urls_to_visit s @ new"
        "enqueued (visit_page E opts cfg b cur s) = enqueued s @ new" "distinct new"
        "set new \<inter> (insert cur (visited_urls s) \<union> set (urls_to_visit s)) = {}"
        "\<forall>u \<in> set new. \<exists>h. admit_link E cfg b cur h = Inr (Some u)"
        by (auto split: if_splits)
      moreover have "\<exists>c. fetch E opts (length (requested s)) cur = Inr c"
        using \<open>fetch E opts (length (requested s)) cur = Inr content\<close> by blast
      moreover have "of_nat (pages_crawled s + 1) < max_pages cfg \<and> 1 < crawl_depth cfg"
        using True by (auto split: if_splits)
      ultimately show ?thesis by blast
    qed
  qed
qed

text \<open>
  Claim C6. With \<open>includeSubdomains\<close> and \<open>followExternalLinks\<close> both false, the link
  extractor admits a link only when its netloc equals the seed's: this holds for one
  link, for the frontier after the links of any document, and for every URL that enters
  the frontier during a crawl. The netloc contains the host, so these URLs have the
  seed's host.
\<close>

theorem same_host_only:
  assumes "\<not> include_subdomains cfg" and "\<not> follow_external_links cfg"
  shows "(admit_link E cfg b cur href0 = Inr (Some u) \<longrightarrow> urlparse_netloc E u = Inr b)
    \<and> (u \<in> set (urls_to_visit (snd (scan_links E cfg b cur (page_links sp) s)))
         \<longrightarrow> u \<in> set (urls_to_visit s) \<or> urlparse_netloc E u = Inr b)
    \<and> (urlparse_netloc E seed = Inr b
         \<and> u \<in> set (enqueued (crawl_loop E opts cfg b (init_state seed)))
         \<longrightarrow> urlparse_netloc E u = urlparse_netloc E seed)"
proof (intro conjI impI)
  assume "admit_link E cfg b cur href0 = Inr (Some u)"
  then show "urlparse_netloc E u = Inr b"
    using assms by (simp add: admit_link_same_netloc)
next
  assume a: "u \<in> set (urls_to_visit (snd (scan_links E cfg b cur (page_links sp) s)))"
  from scan_links_appends [of E cfg b cur "page_links sp" s] obtain new where
    n: "urls_to_visit (snd (scan_links E cfg b cur (page_links sp) s)) = urls_to_visit s @ new"
       "\<forall>u \<in> set new. \<exists>h \<in> set (page_links sp). admit_link E cfg b cur h = Inr (Some u)"
    by blast
  with a have "u \<in> set (urls_to_visit s) \<or> (\<exists>h. admit_link E cfg b cur h = Inr (Some u))"
    by auto
  then show "u \<in> set (urls_to_visit s) \<or> urlparse_netloc E u = Inr b"
    using assms admit_link_same_netloc by blast
next
  assume a: "urlparse_netloc E seed = Inr b
         \<and> u \<in> set (enqueued (crawl_loop E opts cfg b (init_state seed)))"
  have "\<forall>v \<in> set (enqueued (crawl_loop E opts cfg b (init_state seed))). urlparse_netloc E v = Inr b"
  proof (rule crawl_loop_invariant [where I = "\<lambda>t. \<forall>v \<in> set (enqueued t). urlparse_netloc E v = Inr b"])
    show "\<forall>v \<in> set (enqueued (init_state seed)). urlparse_netloc E v = Inr b"
      using a by (simp add: init_state_def)
  next
    fix t :: crawl_state and x rest
    assume "\<forall>v \<in> set (enqueued t). urlparse_netloc E v = Inr b"
    then show "\<forall>v \<in> set (enqueued (t\<lparr>urls_to_visit := rest\<rparr>)). urlparse_netloc E v = Inr b"
      by simp
  next
    fix t :: crawl_state and x rest
    assume i: "\<forall>v \<in> set (enqueued t). urlparse_netloc E v = Inr b"
    from visit_page_appends [of E opts cfg b x "t\<lparr>urls_to_visit := rest\<rparr>"] obtain new where
      "enqueued (visit_page E opts cfg b x (t\<lparr>urls_to_visit := rest\<rparr>)) = enqueued t @ new"
      "\<forall>u \<in> set new. \<exists>h. admit_link E cfg b x h = Inr (Some u)"
      by auto
    with i assms admit_link_same_netloc
    show "\<forall>v \<in> set (enqueued (visit_page E opts cfg b x (t\<lparr>urls_to_visit := rest\<rparr>))).
            urlparse_netloc E v = Inr b"
      by (metis Un_iff set_append)
  qed
  with a show "urlparse_netloc E u = urlparse_netloc E seed" by simp
qed

theorem same_host_only_witness:
  "\<not> include_subdomains (make_config demo_request)
   \<and> \<not> follow_external_links (make_config demo_request)
   \<and> admit_link demo_env (make_config demo_request) ''a'' ''http://a/'' ''http://a/c''
       = Inr (Some ''http://a/c'')
   \<and> admit_link demo_env (make_config demo_request) ''a'' ''http://a/'' ''http://x/'' = Inr None
   \<and> urlparse_netloc demo_env ''http://a/c'' = Inr ''a''
   \<and> urlparse_netloc demo_env ''http://a/b'' = urlparse_netloc demo_env ''http://a/''"
proof -
  let ?cfg = "make_config demo_request"
  have h1: "\<not> include_subdomains ?cfg" by (simp add: make_config_def demo_request_def)
  have h2: "\<not> follow_external_links ?cfg" by (simp add: make_config_def demo_request_def)
  have a: "admit_link demo_env ?cfg ''a'' ''http://a/'' ''http://a/c'' = Inr (Some ''http://a/c'')"
    by code_simp
  have x: "admit_link demo_env ?cfg ''a'' ''http://a/'' ''http://x/'' = Inr None"
    by code_simp
  have n: "urlparse_netloc demo_env ''http://a/'' = Inr ''a''" by code_simp
  have e: "''http://a/b'' \<in> set (enqueued (crawl_loop demo_env demo_request ?cfg ''a''
                                 (init_state ''http://a/'')))"
    by code_simp
  note t = same_host_only [OF h1 h2, of demo_env "''a''" "''http://a/''" "''http://a/c''"
             "''http://a/c''" "[]" "init_state ''http://a/''" "''http://a/''" demo_request]
  from t a have c: "urlparse_netloc demo_env ''http://a/c'' = Inr ''a''" by blast
  note t' = same_host_only [OF h1 h2, of demo_env "''a''" "''http://a/''" "''http://a/c''"
             "''http://a/b''" "[]" "init_state ''http://a/''" "''http://a/''" demo_request]
  from t' n e have d: "urlparse_netloc demo_env ''http://a/b'' = urlparse_netloc demo_env ''http://a/''"
    by blast
  from h1 h2 a x c d show ?thesis by blast
qed

section \<open>Fetch errors\<close>

lemma visit_page_fetch_error:
  "fetch E opts (length (requested s)) u = Inl e
   \<Longrightarrow> visit_page E opts cfg b u s = s\<lparr>requested := requested s @ [u]\<rparr>"
  by (simp add: visit_page_def)

lemma visit_page_requested:
  "requested (visit_page E opts cfg b u s) = requested s @ [u]"
  using process_page_frame by (auto simp: visit_page_def split: sum.splits)

lemma crawl_seed_fetch_error:
  assumes "fetch E opts 0 seed = Inl e"
  shows "all_content (crawl_loop E opts cfg b (init_state seed)) = []
         \<and> main_title (crawl_loop E opts cfg b (init_state seed)) = None
         \<and> pages_crawled (crawl_loop E opts cfg b (init_state seed)) = 0"
proof (cases "of_nat (pages_crawled (init_state seed)) < max_pages cfg")
  case False
  then show ?thesis by (simp add: crawl_loop_done) (simp add: init_state_def)
next
  case True
  let ?s = "(init_state seed)\<lparr>urls_to_visit := []\<rparr>"
  have "crawl_loop E opts cfg b (init_state seed)
        = crawl_loop E opts cfg b (visit_page E opts cfg b seed ?s)"
    by (rule crawl_loop_visit [OF _ True]) (simp_all add: init_state_def)
  also have "\<dots> = crawl_loop E opts cfg b (?s\<lparr>requested := requested ?s @ [seed]\<rparr>)"
  proof -
    have "fetch E opts (length (requested ?s)) seed = Inl e"
      using assms by (simp add: init_state_def)
    then show ?thesis by (simp only: visit_page_fetch_error)
  qed
  also have "\<dots> = ?s\<lparr>requested := requested ?s @ [seed]\<rparr>"
    by (rule crawl_loop_done) simp
  finally show ?thesis by (simp add: init_state_def)
qed

text \<open>
  Claim C1, as amended. The static crawl does not fail when the seed cannot be fetched. It
  returns a result exactly when \<open>urlparse\<close> accepts the seed URL. A failed request for the
  seed (a 404, say) is skipped like any other: the result then has empty markdown and the
  title \<open>Multi-page Crawl Results\<close>, and \<open>crawlWithPython\<close> resolves with it when Crawl4AI has
  failed before, \<open>python3\<close> runs the script to its end and the pasted URL and selector read
  back as themselves. Every failed request leaves the state as it was and the loop goes
  on with the rest of the frontier.
\<close>

theorem fetch_errors_never_fatal:
  "((\<exists>r. fallback_crawl E opts seed cfg = Inr r) \<longleftrightarrow> (\<exists>d. urlparse_netloc E seed = Inr d))
   \<and> (urlparse_netloc E seed = Inr b \<and> fetch E opts 0 seed = Inl e \<longrightarrow>
        fallback_crawl E opts seed cfg
        = Inr \<lparr>markdown = [], title = Some ''Multi-page Crawl Results''\<rparr>)
   \<and> (interrupted E (script_fields opts) = None \<and> pasted_as_written opts
        \<and> crawl4ai_attempt E opts = Inl e1 \<and> urlparse_netloc E (url opts) = Inr b
        \<and> fetch E opts 0 (url opts) = Inl e \<longrightarrow>
        crawlWithPython E opts
        = Inr \<lparr>out_markdown = [], out_title = ''Multi-page Crawl Results''\<rparr>)
   \<and> (fetch E opts (length (requested s)) u = Inl e \<and> urls_to_visit s = u # rest
        \<and> of_nat (pages_crawled s) < max_pages cfg \<and> u \<notin> visited_urls s \<longrightarrow>
        crawl_loop E opts cfg b s
        = crawl_loop E opts cfg b (s\<lparr>urls_to_visit := rest, requested := requested s @ [u]\<rparr>))"
proof (intro conjI impI)
  show "(\<exists>r. fallback_crawl E opts seed cfg = Inr r) \<longleftrightarrow> (\<exists>d. urlparse_netloc E seed = Inr d)"
    by (cases "urlparse_netloc E seed") (simp_all add: fallback_crawl_def Let_def)
next
  assume "urlparse_netloc E seed = Inr b \<and> fetch E opts 0 seed = Inl e"
  then show "fallback_crawl E opts seed cfg
        = Inr \<lparr>markdown = [], title = Some ''Multi-page Crawl Results''\<rparr>"
    using crawl_seed_fetch_error [of E opts seed e cfg b]
    by (simp add: fallback_crawl_def Let_def)
next
  assume a: "interrupted E (script_fields opts) = None \<and> pasted_as_written opts
        \<and> crawl4ai_attempt E opts = Inl e1 \<and> urlparse_netloc E (url opts) = Inr b
        \<and> fetch E opts 0 (url opts) = Inl e"
  then have "fallback_crawl E opts (url opts) (make_config opts)
        = Inr \<lparr>markdown = [], title = Some ''Multi-page Crawl Results''\<rparr>"
    using crawl_seed_fetch_error [of E opts "url opts" e "make_config opts" b]
    by (simp add: fallback_crawl_def Let_def)
  with a show "crawlWithPython E opts
        = Inr \<lparr>out_markdown = [], out_title = ''Multi-page Crawl Results''\<rparr>"
    by (simp add: crawlWithPython_def crawl_url_def on_close_def resolved_def str_or_def)
next
  assume a: "fetch E opts (length (requested s)) u = Inl e \<and> urls_to_visit s = u # rest
        \<and> of_nat (pages_crawled s) < max_pages cfg \<and> u \<notin> visited_urls s"
  then have "crawl_loop E opts cfg b s
        = crawl_loop E opts cfg b (visit_page E opts cfg b u (s\<lparr>urls_to_visit := rest\<rparr>))"
    by (simp add: crawl_loop_visit)
  with a show "crawl_loop E opts cfg b s
        = crawl_loop E opts cfg b (s\<lparr>urls_to_visit := rest, requested := requested s @ [u]\<rparr>)"
    by (simp add: visit_page_fetch_error)
qed

theorem fetch_errors_never_fatal_witness:
  "urlparse_netloc demo_env ''http://a/b'' = Inr ''a''
   \<and> fetch demo_env demo_request 0 ''http://a/b'' = Inl ''404 Client Error''
   \<and> fallback_crawl demo_env demo_request ''http://a/b'' (make_config demo_request)
       = Inr \<lparr>markdown = [], title = Some ''Multi-page Crawl Results''\<rparr>
   \<and> pasted_as_written (demo_request\<lparr>url := ''http://a/b''\<rparr>)
   \<and> crawlWithPython demo_env (demo_request\<lparr>url := ''http://a/b''\<rparr>)
       = Inr \<lparr>out_markdown = [], out_title = ''Multi-page Crawl Results''\<rparr>"
proof -
  let ?R = "demo_request\<lparr>url := ''http://a/b''\<rparr>"
  have g: "interrupted demo_env (script_fields ?R) = None" by (simp add: demo_env_def)
  have pw: "pasted_as_written ?R" by code_simp
  have ca: "crawl4ai_attempt demo_env ?R = Inl ''No module named crawl4ai''" by code_simp
  have n': "urlparse_netloc demo_env (url ?R) = Inr ''a''" by code_simp
  have f': "fetch demo_env ?R 0 (url ?R) = Inl ''404 Client Error''" by code_simp
  from fetch_errors_never_fatal [where E = demo_env and opts = ?R and b = "''a''"
         and e = "''404 Client Error''" and ?e1.0 = "''No module named crawl4ai''"]
       g pw ca n' f'
  have cw: "crawlWithPython demo_env ?R
       = Inr \<lparr>out_markdown = [], out_title = ''Multi-page Crawl Results''\<rparr>"
    by blast
  have n: "urlparse_netloc demo_env ''http://a/b'' = Inr ''a''" by code_simp
  have f: "fetch demo_env demo_request 0 ''http://a/b'' = Inl ''404 Client Error''" by code_simp
  from fetch_errors_never_fatal [of demo_env demo_request "''http://a/b''"
         "make_config demo_request" "''a''" "''404 Client Error''"] n f
  have "fallback_crawl demo_env demo_request ''http://a/b'' (make_config demo_request)
       = Inr \<lparr>markdown = [], title = Some ''Multi-page Crawl Results''\<rparr>"
    by blast
  with n f pw cw show ?thesis by blast
qed

text \<open>
  The claim as stated fails: the request for the seed is answered with 404, and the
  invocation resolves and a row is stored.
\<close>

theorem seed_404_counterexample:
  "fetch demo_env (demo_request\<lparr>url := ''http://a/b''\<rparr>) 0 ''http://a/b''
     = Inl ''404 Client Error''
   \<and> crawlWithPython demo_env (demo_request\<lparr>url := ''http://a/b''\<rparr>)
       = Inr \<lparr>out_markdown = [], out_title = ''Multi-page Crawl Results''\<rparr>
   \<and> post_api_crawl demo_env (demo_request\<lparr>url := ''http://a/b''\<rparr>)
       = Inr \<lparr>r_url = ''http://a/b'', r_markdown = [], r_title = ''Multi-page Crawl Results'',
              characterCount = 0, wordCount = 0\<rparr>"
  by code_simp

section \<open>The depth gate\<close>

text \<open>
  Claim C3, as amended. Link extraction runs on a fetched page only when the page count,
  this page included, is below \<open>max_pages\<close> and \<open>crawl_depth\<close> is above 1. On the seed page it
  runs exactly when \<open>max_pages\<close> and \<open>crawl_depth\<close> are both above 1. With a \<open>crawl_depth\<close> of 1
  or less only the seed is requested.
\<close>

theorem link_extraction_gate:
  "(urls_to_visit (visit_page E opts cfg b u s) \<noteq> urls_to_visit s \<longrightarrow>
      of_nat (pages_crawled s + 1) < max_pages cfg \<and> 1 < crawl_depth cfg)
   \<and> (fetch E opts 0 seed = Inr content \<and> html_parser E content = Inr sp \<longrightarrow>
        urls_to_visit (visit_page E opts cfg b seed ((init_state seed)\<lparr>urls_to_visit := []\<rparr>))
        = (if 1 < max_pages cfg \<and> 1 < crawl_depth cfg
           then urls_to_visit (snd (scan_links E cfg b seed (page_links sp)
                  \<lparr>visited_urls = {seed}, all_content = [], urls_to_visit = [],
                   pages_crawled = 1, main_title = Some (page_title sp),
                   requested = [seed], enqueued = [seed]\<rparr>))
           else []))
   \<and> (crawl_depth cfg \<le> 1 \<longrightarrow>
        requested (crawl_loop E opts cfg b (init_state seed))
        = (if 0 < max_pages cfg then [seed] else []))"
proof -
  have p1: "urls_to_visit (visit_page E opts cfg b u s) \<noteq> urls_to_visit s \<longrightarrow>
      of_nat (pages_crawled s + 1) < max_pages cfg \<and> 1 < crawl_depth cfg"
    using visit_page_appends [of E opts cfg b u s] by auto
  let ?s1 = "\<lparr>visited_urls = {seed}, all_content = [], urls_to_visit = [],
                   pages_crawled = 1, main_title = Some (page_title sp),
                   requested = [seed], enqueued = [seed]\<rparr>"
  obtain err s2 where sc: "scan_links E cfg b seed (page_links sp) ?s1 = (err, s2)"
    by (cases "scan_links E cfg b seed (page_links sp) ?s1")
  then have p2: "fetch E opts 0 seed = Inr content \<and> html_parser E content = Inr sp \<longrightarrow>
        urls_to_visit (visit_page E opts cfg b seed ((init_state seed)\<lparr>urls_to_visit := []\<rparr>))
        = (if 1 < max_pages cfg \<and> 1 < crawl_depth cfg
           then urls_to_visit (snd (scan_links E cfg b seed (page_links sp) ?s1))
           else [])"
    by (simp add: visit_page_def process_page_def init_state_def Let_def
             split: option.splits sum.splits)
  have p3: "crawl_depth cfg \<le> 1 \<longrightarrow>
        requested (crawl_loop E opts cfg b (init_state seed))
        = (if 0 < max_pages cfg then [seed] else [])"
  proof
    assume d: "crawl_depth cfg \<le> 1"
    show "requested (crawl_loop E opts cfg b (init_state seed))
          = (if 0 < max_pages cfg then [seed] else [])"
    proof (cases "0 < max_pages cfg")
      case False
      then show ?thesis by (simp add: crawl_loop_done) (simp add: init_state_def)
    next
      case True
      let ?s = "(init_state seed)\<lparr>urls_to_visit := []\<rparr>"
      let ?v = "visit_page E opts cfg b seed ?s"
      have "crawl_loop E opts cfg b (init_state seed) = crawl_loop E opts cfg b ?v"
        by (rule crawl_loop_visit) (use True in \<open>simp_all add: init_state_def\<close>)
      moreover from visit_page_appends [of E opts cfg b seed ?s] d
      have "urls_to_visit ?v = []" by (auto simp: init_state_def)
      then have "crawl_loop E opts cfg b ?v = ?v" by (simp add: crawl_loop_done)
      ultimately show ?thesis
        using True by (simp add: visit_page_requested init_state_def)
    qed
  qed
  from p1 p2 p3 show ?thesis by blast
qed

theorem link_extraction_gate_witness:
  "urls_to_visit (visit_page demo_env demo_request (make_config demo_request) ''a'' ''http://a/''
      ((init_state ''http://a/'')\<lparr>urls_to_visit := []\<rparr>)) = [''http://a/b'', ''http://a/c'']
   \<and> (5::rat) = max_pages (make_config demo_request)
   \<and> (1::rat) < crawl_depth (make_config demo_request)
   \<and> requested (crawl_loop demo_env (demo_request\<lparr>crawlDepth := 1\<rparr>)
        (make_config (demo_request\<lparr>crawlDepth := 1\<rparr>)) ''a'' (init_state ''http://a/''))
      = [''http://a/'']"
proof -
  let ?s = "(init_state ''http://a/'')\<lparr>urls_to_visit := []\<rparr>"
  let ?cfg = "make_config demo_request"
  let ?R1 = "demo_request\<lparr>crawlDepth := 1\<rparr>"
  have v: "urls_to_visit (visit_page demo_env demo_request ?cfg ''a'' ''http://a/'' ?s)
           = [''http://a/b'', ''http://a/c'']"
    by code_simp
  then have ne: "urls_to_visit (visit_page demo_env demo_request ?cfg ''a'' ''http://a/'' ?s)
           \<noteq> urls_to_visit ?s" by simp
  have mp: "(5::rat) = max_pages ?cfg" by (simp add: make_config_def demo_request_def num_or_def)
  from link_extraction_gate [of demo_env demo_request ?cfg "''a''" "''http://a/''" ?s] ne
  have g: "1 < crawl_depth ?cfg" by blast
  have d: "crawl_depth (make_config ?R1) \<le> 1" "0 < max_pages (make_config ?R1)"
    by (simp_all add: make_config_def demo_request_def num_or_def)
  from link_extraction_gate [of demo_env ?R1 "make_config ?R1" "''a''" "''http://a/''" ?s
         "''http://a/''"] d
  have r: "requested (crawl_loop demo_env ?R1 (make_config ?R1) ''a'' (init_state ''http://a/''))
      = [''http://a/'']" by presburger
  from v mp g r show ?thesis by blast
qed

text \<open>
  The claim as stated fails: with a depth limit of 1 and a page limit of 2 the seed is
  page 1 at layer 0, so the rule of the specification asks for link extraction, and the
  seed has an admissible link; the frontier stays empty.
\<close>

theorem depth_one_counterexample:
  "spec_extracts (make_config (demo_request\<lparr>crawlDepth := 1, maxPages := 2\<rparr>)) 1 0
   \<and> fetch demo_env (demo_request\<lparr>crawlDepth := 1, maxPages := 2\<rparr>) 0 ''http://a/'' = Inr ''A''
   \<and> ''http://a/c'' \<in> set (page_links (demo_soup ''A''))
   \<and> admit_link demo_env (make_config (demo_request\<lparr>crawlDepth := 1, maxPages := 2\<rparr>))
        ''a'' ''http://a/'' ''http://a/c'' = Inr (Some ''http://a/c'')
   \<and> visit_page demo_env (demo_request\<lparr>crawlDepth := 1, maxPages := 2\<rparr>)
        (make_config (demo_request\<lparr>crawlDepth := 1, maxPages := 2\<rparr>)) ''a'' ''http://a/''
        ((init_state ''http://a/'')\<lparr>urls_to_visit := []\<rparr>)
      = \<lparr>visited_urls = {''http://a/''}, all_content = [''Homehello world''],
         urls_to_visit = [], pages_crawled = 1, main_title = Some ''Home'',
         requested = [''http://a/''], enqueued = [''http://a/'']\<rparr>"
  by code_simp

section \<open>URL patterns\<close>

lemma crawl_loop_cong:
  assumes "\<And>u s. visit_page E opts' cfg b u s = visit_page E opts cfg b u s"
  shows "crawl_loop E opts' cfg b s = crawl_loop E opts cfg b s"
  using assms
proof (induction E opts cfg b s rule: crawl_loop.induct)
  case (1 E opts cfg b s)
  show ?case
  proof (cases "urls_to_visit s")
    case Nil
    then show ?thesis by (simp add: crawl_loop_done)
  next
    case (Cons u rest)
    show ?thesis
    proof (cases "of_nat (pages_crawled s) < max_pages cfg")
      case False
      then show ?thesis by (simp add: crawl_loop_done)
    next
      case lt: True
      show ?thesis
      proof (cases "u \<in> visited_urls s")
        case True
        from "1.IH"(1) [OF Cons _ True] lt "1.prems"
        have "crawl_loop E opts' cfg b (s\<lparr>urls_to_visit := rest\<rparr>)
              = crawl_loop E opts cfg b (s\<lparr>urls_to_visit := rest\<rparr>)" by simp
        then show ?thesis
          by (simp add: crawl_loop_skip [OF Cons lt True])
      next
        case False
        from "1.IH"(2) [OF Cons _ False] lt "1.prems"
        have "crawl_loop E opts' cfg b (visit_page E opts cfg b u (s\<lparr>urls_to_visit := rest\<rparr>))
              = crawl_loop E opts cfg b (visit_page E opts cfg b u (s\<lparr>urls_to_visit := rest\<rparr>))"
          by simp
        then show ?thesis
          by (simp add: crawl_loop_visit [OF Cons lt False] "1.prems")
      qed
    qed
  qed
qed

lemma visit_page_patterns:
  "visit_page E (opts\<lparr>excludePatterns := ex, includePatterns := inc\<rparr>) cfg b u s
   = visit_page E opts cfg b u s"
proof -
  let ?o = "opts\<lparr>excludePatterns := ex, includePatterns := inc\<rparr>"
  have m: "\<And>c. page_markdown E ?o c = page_markdown E opts c"
    by (simp add: page_markdown_def sanitize_def locate_def remove_unwanted_def
          handle_tables_def handle_images_def cong: sum.case_cong)
  have p: "\<And>c t. process_page E ?o cfg b u c t = process_page E opts cfg b u c t"
    by (simp add: process_page_def m cong: sum.case_cong option.case_cong)
  have f: "\<And>n. fetch E ?o n u = fetch E opts n u"
    by (simp add: fetch_def headers_def)
  show ?thesis by (simp add: visit_page_def p f cong: sum.case_cong)
qed

text \<open>
  Claim C4, as amended. The link extractor applies no pattern filter: \<open>excludePatterns\<close>
  and \<open>includePatterns\<close> are not part of \<open>config\<close> and never reach the crawler, so the crawl
  and its result are the same whatever the two lists hold.
\<close>

theorem patterns_not_applied:
  "make_config (opts\<lparr>excludePatterns := ex, includePatterns := inc\<rparr>) = make_config opts
   \<and> fallback_crawl E (opts\<lparr>excludePatterns := ex, includePatterns := inc\<rparr>) seed cfg
       = fallback_crawl E opts seed cfg
   \<and> crawlWithPython E (opts\<lparr>excludePatterns := ex, includePatterns := inc\<rparr>)
       = crawlWithPython E opts"
proof -
  let ?o = "opts\<lparr>excludePatterns := ex, includePatterns := inc\<rparr>"
  have c: "make_config ?o = make_config opts" by (simp add: make_config_def)
  have l: "\<And>cfg b s. crawl_loop E ?o cfg b s = crawl_loop E opts cfg b s"
    by (rule crawl_loop_cong) (rule visit_page_patterns)
  have f: "\<And>seed cfg. fallback_crawl E ?o seed cfg = fallback_crawl E opts seed cfg"
    by (simp add: fallback_crawl_def l split: sum.splits)
  have a: "crawl4ai_attempt E ?o = crawl4ai_attempt E opts"
    by (simp add: crawl4ai_attempt_def make_crawl_params_def)
  have sf: "script_fields ?o = script_fields opts" by (simp add: script_fields_def)
  have pw: "pasted_as_written ?o = pasted_as_written opts"
    by (simp add: pasted_as_written_def)
  have cu: "crawl_url E ?o = crawl_url E opts"
    by (simp add: crawl_url_def c f a sf pw cong: sum.case_cong)
  have "crawlWithPython E ?o = crawlWithPython E opts"
    by (simp add: crawlWithPython_def cu sf cong: option.case_cong)
  with c f show ?thesis by simp
qed

theorem patterns_not_applied_witness:
  "crawlWithPython demo_env
     (demo_request\<lparr>excludePatterns := [''http://a/c''], includePatterns := [''nomatch'']\<rparr>)
   = crawlWithPython demo_env demo_request"
  using patterns_not_applied [where opts = demo_request and ex = "[''http://a/c'']"
          and inc = "[''nomatch'']" and E = demo_env]
  by blast

text \<open>
  The claim as stated fails: \<open>http://a/c\<close> is an exclude pattern and matches no include
  pattern, and it is admitted and requested.
\<close>

theorem patterns_ignored_counterexample:
  "''http://a/c'' \<in> set (excludePatterns
       (demo_request\<lparr>excludePatterns := [''http://a/c''], includePatterns := [''nomatch'']\<rparr>))
   \<and> includePatterns
       (demo_request\<lparr>excludePatterns := [''http://a/c''], includePatterns := [''nomatch'']\<rparr>)
      = [''nomatch'']
   \<and> admit_link demo_env
        (make_config
          (demo_request\<lparr>excludePatterns := [''http://a/c''], includePatterns := [''nomatch'']\<rparr>))
        ''a'' ''http://a/'' ''http://a/c'' = Inr (Some ''http://a/c'')
   \<and> requested (crawl_loop demo_env
        (demo_request\<lparr>excludePatterns := [''http://a/c''], includePatterns := [''nomatch'']\<rparr>)
        (make_config
          (demo_request\<lparr>excludePatterns := [''http://a/c''], includePatterns := [''nomatch'']\<rparr>))
        ''a'' (init_state ''http://a/''))
      = [''http://a/'', ''http://a/b'', ''http://a/c'', ''http://a/b'']"
  by code_simp

section \<open>Deduplication\<close>










end
